theory Spec2Isabelle
  imports Main "HOL-Library.Word" "HOL-Library.AList"
begin

section \<open>Strings\<close>

text \<open>
  A JavaScript string is a sequence of 16-bit code units; \<open>length\<close> counts code units.
  \<open>ascii\<close> writes an ASCII literal of the source as code units.
\<close>

type_synonym js_string = "16 word list"

definition ascii :: "string \<Rightarrow> js_string" where
  "ascii cs = map (\<lambda>c. of_nat (of_char c)) cs"

text \<open>
  \<open>StringIndexOf(string, searchValue, fromIndex)\<close> of ECMA-262: the empty search value
  is found at \<open>fromIndex\<close> when that is within the string; otherwise the smallest
  \<open>i\<close> with \<open>fromIndex \<le> i \<le> len - searchLen\<close> at which \<open>searchValue\<close> stands;
  \<open>None\<close> is the result not-found.
\<close>

definition stringIndexOf :: "'a list \<Rightarrow> 'a list \<Rightarrow> nat \<Rightarrow> nat option" where
  "stringIndexOf string searchValue fromIndex =
     (let len = length string; searchLen = length searchValue in
      if searchValue = [] \<and> fromIndex \<le> len then Some fromIndex
      else if len < searchLen then None
      else find (\<lambda>i. take searchLen (drop i string) = searchValue)
             [fromIndex ..< Suc (len - searchLen)])"

text \<open>\<open>String.prototype.includes(searchString)\<close> with the default position 0.\<close>

definition string_includes :: "'a list \<Rightarrow> 'a list \<Rightarrow> bool" where
  "string_includes string searchString = (stringIndexOf string searchString 0 \<noteq> None)"

text \<open>
  \<open>String.prototype.split(separator)\<close> with a string separator and no limit argument
  (ECMA-262, String.prototype.split). The limit then is \<open>2^32 - 1\<close> parts, above the number
  of parts of any string a JavaScript engine can hold, so the limit test of the loop is left
  out. \<open>split_loop string separator i\<close> is the loop from position \<open>i\<close>: the parts still to
  come. The loop is entered with a non-empty separator only; the first test keeps the
  recursion well-founded.
\<close>

function split_loop :: "'a list \<Rightarrow> 'a list \<Rightarrow> nat \<Rightarrow> 'a list list" where
  "split_loop string separator i =
     (if separator = [] then [drop i string]
      else case stringIndexOf string separator i of
             None \<Rightarrow> [drop i string]
           | Some j \<Rightarrow> take (j - i) (drop i string) # split_loop string separator (j + length separator))"
  by pat_completeness auto
termination
  by (relation "measure (\<lambda>(string, separator, i). Suc (length string) - i)")
     (auto simp: stringIndexOf_def Let_def find_Some_iff neq_Nil_conv simp del: upt_Suc split: if_splits)

declare split_loop.simps [simp del]

definition split :: "'a list \<Rightarrow> 'a list \<Rightarrow> 'a list list" where
  "split string separator =
     (if separator = [] then map (\<lambda>c. [c]) string
      else if string = [] then [string]
      else split_loop string separator 0)"

text \<open>
  The number of occurrences of the token in a text as the specification counts them:
  scanning left to right, an occurrence consumes its characters (occurrences do not overlap).
  The specification leaves the count for the empty token open; it is 0 here.
\<close>

function occurrences :: "'a list \<Rightarrow> 'a list \<Rightarrow> nat" where
  "occurrences token text =
     (if token = [] \<or> length text < length token then 0
      else if take (length token) text = token
        then Suc (occurrences token (drop (length token) text))
        else occurrences token (tl text))"
  by pat_completeness auto
termination
  by (relation "measure (\<lambda>(token, text). length text)")
     (auto simp: not_less intro!: diff_less)

declare occurrences.simps [simp del]

section \<open>Settings\<close>

record LineBreakSettings =
  triggerWord :: js_string
  breakMethod :: js_string
  enabled :: bool

definition DEFAULT_SETTINGS :: LineBreakSettings where
  "DEFAULT_SETTINGS =
     \<lparr>triggerWord = ascii ''.break.'', breakMethod = ascii ''zero-width'', enabled = True\<rparr>"

text \<open>
  What \<open>loadData()\<close> resolves to: \<open>None\<close> is \<open>null\<close> (nothing stored yet); otherwise an
  object in which each of the three keys is present or absent. The values are taken to
  have the types of \<open>LineBreakSettings\<close>.
\<close>

record StoredSettings =
  stored_triggerWord :: "js_string option"
  stored_breakMethod :: "js_string option"
  stored_enabled :: "bool option"

text \<open>
  \<open>loadSettings\<close>: \<open>Object.assign({}, DEFAULT_SETTINGS, data)\<close>. Every key present in
  the stored object overwrites the default, whatever its value; a \<open>null\<close> source is skipped.
\<close>

definition loadSettings :: "StoredSettings option \<Rightarrow> LineBreakSettings" where
  "loadSettings data =
     (case data of
        None \<Rightarrow> DEFAULT_SETTINGS
      | Some stored \<Rightarrow>
          \<lparr>triggerWord = (case stored_triggerWord stored of
                            None \<Rightarrow> triggerWord DEFAULT_SETTINGS | Some v \<Rightarrow> v),
           breakMethod = (case stored_breakMethod stored of
                            None \<Rightarrow> breakMethod DEFAULT_SETTINGS | Some v \<Rightarrow> v),
           enabled = (case stored_enabled stored of
                        None \<Rightarrow> enabled DEFAULT_SETTINGS | Some v \<Rightarrow> v)\<rparr>)"

text \<open>
  The \<open>onChange\<close> handler of the trigger-word field of the settings tab:
  \<open>settings.triggerWord = value || '.break.'\<close> (the empty string is falsy).
\<close>

definition onChange_triggerWord :: "js_string \<Rightarrow> LineBreakSettings \<Rightarrow> LineBreakSettings" where
  "onChange_triggerWord v s = s\<lparr>triggerWord := (if v = [] then ascii ''.break.'' else v)\<rparr>"

section \<open>The document\<close>

text \<open>
  The DOM is a store of nodes: a reference is an index into the list of all nodes ever
  created, a node holds its kind, its parent and the ordered list of its children.
  An element carries its tag name and its inline style (the declarations in the order
  they were first set). Nodes are never deleted; a node taken out of the tree stays in the
  store without a parent.
\<close>

type_synonym ref = nat

datatype node_kind =
    Element string "(string \<times> string) list"
  | Text js_string
  | Comment js_string
  | DocumentFragment

record dom_node =
  kind :: node_kind
  parentNode :: "ref option"
  childNodes :: "ref list"

type_synonym document = "dom_node list"

datatype dom_exception = HierarchyRequestError | NotFoundError | TypeError

definition lookup :: "document \<Rightarrow> ref \<Rightarrow> dom_node option" where
  "lookup d r = (if r < length d then Some (d ! r) else None)"

definition update_node :: "ref \<Rightarrow> (dom_node \<Rightarrow> dom_node) \<Rightarrow> document \<Rightarrow> document" where
  "update_node r f d = (if r < length d then d[r := f (d ! r)] else d)"

definition children :: "document \<Rightarrow> ref \<Rightarrow> ref list" where
  "children d r = (case lookup d r of None \<Rightarrow> [] | Some n \<Rightarrow> childNodes n)"

definition parent_of :: "document \<Rightarrow> ref \<Rightarrow> ref option" where
  "parent_of d r = (case lookup d r of None \<Rightarrow> None | Some n \<Rightarrow> parentNode n)"

text \<open>
  \<open>textContent\<close> of a Text or Comment node is its data. For the other kinds (where the DOM
  gives the text of the descendants, or \<open>null\<close>) the model gives \<open>None\<close>, which the source
  treats as it treats \<open>null\<close>; the program reads \<open>textContent\<close> of Text nodes only.
\<close>

definition textContent :: "document \<Rightarrow> ref \<Rightarrow> js_string option" where
  "textContent d r =
     (case lookup d r of
        None \<Rightarrow> None
      | Some n \<Rightarrow> (case kind n of Text s \<Rightarrow> Some s | Comment s \<Rightarrow> Some s | _ \<Rightarrow> None))"

definition createNode :: "node_kind \<Rightarrow> document \<Rightarrow> ref \<times> document" where
  "createNode k d = (length d, d @ [\<lparr>kind = k, parentNode = None, childNodes = []\<rparr>])"

definition createElement :: "string \<Rightarrow> document \<Rightarrow> ref \<times> document" where
  "createElement tag d = createNode (Element tag []) d"

definition createTextNode :: "js_string \<Rightarrow> document \<Rightarrow> ref \<times> document" where
  "createTextNode s d = createNode (Text s) d"

definition createDocumentFragment :: "document \<Rightarrow> ref \<times> document" where
  "createDocumentFragment d = createNode DocumentFragment d"

text \<open>\<open>el.style.prop = v\<close>: sets one declaration of the inline style of an element.\<close>

definition style_set :: "ref \<Rightarrow> string \<Rightarrow> string \<Rightarrow> document \<Rightarrow> document" where
  "style_set el prop v d =
     update_node el
       (\<lambda>n. case kind n of
               Element tag st \<Rightarrow> n\<lparr>kind := Element tag (AList.update prop v st)\<rparr>
             | _ \<Rightarrow> n) d"

text \<open>
  \<open>el.innerHTML = markup\<close> for markup that is one character reference: the parsed markup
  is a single Text node holding that character, which replaces all children of \<open>el\<close>.
\<close>

definition innerHTML_set :: "ref \<Rightarrow> js_string \<Rightarrow> document \<Rightarrow> document" where
  "innerHTML_set el s d =
     (let d1 = fold (\<lambda>c. update_node c (\<lambda>n. n\<lparr>parentNode := None\<rparr>)) (children d el) d;
          (t, d2) = createTextNode s d1;
          d3 = update_node t (\<lambda>n. n\<lparr>parentNode := Some el\<rparr>) d2
      in update_node el (\<lambda>n. n\<lparr>childNodes := [t]\<rparr>) d3)"

text \<open>
  Whether \<open>a\<close> is an inclusive ancestor of \<open>r\<close>. The parent chain of a node of a tree with
  \<open>length d\<close> nodes has fewer than \<open>length d\<close> links, which bounds the walk.
\<close>

fun ancestor_within :: "nat \<Rightarrow> document \<Rightarrow> ref \<Rightarrow> ref \<Rightarrow> bool" where
  "ancestor_within 0 d a r = (a = r)"
| "ancestor_within (Suc n) d a r =
     (a = r \<or> (case parent_of d r of None \<Rightarrow> False | Some p \<Rightarrow> ancestor_within n d a p))"

definition inclusive_ancestor :: "document \<Rightarrow> ref \<Rightarrow> ref \<Rightarrow> bool" where
  "inclusive_ancestor d a r = ancestor_within (length d) d a r"

definition is_container :: "node_kind \<Rightarrow> bool" where
  "is_container k = (case k of Element tag st \<Rightarrow> True | DocumentFragment \<Rightarrow> True | _ \<Rightarrow> False)"

definition remove_from_parent :: "ref \<Rightarrow> document \<Rightarrow> document" where
  "remove_from_parent node d =
     (case parent_of d node of
        None \<Rightarrow> d
      | Some p \<Rightarrow>
          update_node node (\<lambda>n. n\<lparr>parentNode := None\<rparr>)
            (update_node p (\<lambda>n. n\<lparr>childNodes := remove1 node (childNodes n)\<rparr>) d))"

text \<open>
  The nodes an insertion of \<open>node\<close> inserts, taken out of where they were: the children of a
  DocumentFragment (which is left empty), or the node itself (removed from its parent).
\<close>

definition take_for_insertion :: "ref \<Rightarrow> document \<Rightarrow> ref list \<times> document" where
  "take_for_insertion node d =
     (case lookup d node of
        None \<Rightarrow> ([], d)
      | Some nn \<Rightarrow>
          if kind nn = DocumentFragment
          then (childNodes nn, update_node node (\<lambda>n. n\<lparr>childNodes := []\<rparr>) d)
          else ([node], remove_from_parent node d))"

definition set_parent :: "ref list \<Rightarrow> ref \<Rightarrow> document \<Rightarrow> document" where
  "set_parent new parent d = fold (\<lambda>c. update_node c (\<lambda>n. n\<lparr>parentNode := Some parent\<rparr>)) new d"

text \<open>
  \<open>parent.appendChild(node)\<close>. The exceptions are those of the DOM's pre-insertion validity
  check that the kinds of the model can raise; a reference to no node is a \<open>TypeError\<close>.
\<close>

definition appendChild :: "ref \<Rightarrow> ref \<Rightarrow> document \<Rightarrow> dom_exception + document" where
  "appendChild parent node d =
     (case (lookup d parent, lookup d node) of
        (Some pn, Some nn) \<Rightarrow>
          if \<not> is_container (kind pn) then Inl HierarchyRequestError
          else if inclusive_ancestor d node parent then Inl HierarchyRequestError
          else (let (new, d1) = take_for_insertion node d;
                    d2 = set_parent new parent d1
                in Inr (update_node parent (\<lambda>n. n\<lparr>childNodes := childNodes n @ new\<rparr>) d2))
      | _ \<Rightarrow> Inl TypeError)"

text \<open>The children of a parent after \<open>child\<close> was replaced by the nodes \<open>new\<close>.\<close>

fun replace_in :: "ref \<Rightarrow> ref list \<Rightarrow> ref list \<Rightarrow> ref list" where
  "replace_in child new [] = []"
| "replace_in child new (c # cs) = (if c = child then new @ cs else c # replace_in child new cs)"

text \<open>\<open>parent.replaceChild(node, child)\<close>.\<close>

definition replaceChild :: "ref \<Rightarrow> ref \<Rightarrow> ref \<Rightarrow> document \<Rightarrow> dom_exception + document" where
  "replaceChild parent node child d =
     (case (lookup d parent, lookup d node, lookup d child) of
        (Some pn, Some nn, Some cn) \<Rightarrow>
          if \<not> is_container (kind pn) then Inl HierarchyRequestError
          else if inclusive_ancestor d node parent then Inl HierarchyRequestError
          else if parentNode cn \<noteq> Some parent then Inl NotFoundError
          else (let (new, d1) = take_for_insertion node d;
                    d2 = set_parent new parent d1;
                    d3 = update_node parent
                           (\<lambda>n. n\<lparr>childNodes := replace_in child new (childNodes n)\<rparr>) d2
                in Inr (update_node child (\<lambda>n. n\<lparr>parentNode := None\<rparr>) d3))
      | _ \<Rightarrow> Inl TypeError)"

text \<open>
  The nodes a TreeWalker visits: the descendants of the root in document order, the root
  itself left out. \<open>document_order d todo\<close> walks the nodes of \<open>todo\<close> and their descendants;
  it is \<open>None\<close> when the walk does not end, which needs a store that is no tree.
\<close>

partial_function (option) document_order :: "document \<Rightarrow> ref list \<Rightarrow> ref list option" where
  "document_order d todo =
     (case todo of
        [] \<Rightarrow> Some []
      | r # rest \<Rightarrow> Option.bind (document_order d (children d r @ rest)) (\<lambda>ns. Some (r # ns)))"

declare document_order.simps [code]

definition is_text :: "document \<Rightarrow> ref \<Rightarrow> bool" where
  "is_text d r = (case lookup d r of Some n \<Rightarrow> (case kind n of Text s \<Rightarrow> True | _ \<Rightarrow> False) | None \<Rightarrow> False)"

text \<open>
  \<open>createTreeWalker(element, NodeFilter.SHOW_TEXT, null)\<close> and the calls of \<open>nextNode()\<close>
  until it gives \<open>null\<close>: the Text nodes below \<open>element\<close> in document order.
\<close>

definition walker_nodes :: "document \<Rightarrow> ref \<Rightarrow> ref list option" where
  "walker_nodes d element = map_option (filter (is_text d)) (document_order d (children d element))"

section \<open>The plugin\<close>

text \<open>\<open>createLineBreak\<close>: the switch on \<open>settings.breakMethod\<close>, with its default branch.\<close>

definition createLineBreak :: "LineBreakSettings \<Rightarrow> document \<Rightarrow> ref \<times> document" where
  "createLineBreak s d =
     (if breakMethod s = ascii ''zero-width'' then
        (let (zeroWidthSpan, d1) = createElement ''span'' d;
             d2 = style_set zeroWidthSpan ''display'' ''block'' d1;
             d3 = style_set zeroWidthSpan ''height'' ''1em'' d2;
             d4 = style_set zeroWidthSpan ''lineHeight'' ''1em'' d3
         in (zeroWidthSpan, innerHTML_set zeroWidthSpan [0x200B] d4))
      else if breakMethod s = ascii ''html-br'' then createElement ''br'' d
      else if breakMethod s = ascii ''css-break'' then
        (let (cssSpan, d1) = createElement ''span'' d;
             d2 = style_set cssSpan ''display'' ''block'' d1;
             d3 = style_set cssSpan ''content'' [CHR 0x22, CHR 0x22] d2
         in (cssSpan, style_set cssSpan ''marginTop'' ''1em'' d3))
      else createElement ''br'' d)"

text \<open>
  The callback of \<open>parts.forEach\<close> in \<open>replaceTextNodeWithBreaks\<close>, for the part at \<open>index\<close>
  of \<open>n\<close> parts, and the loop over the parts from \<open>index\<close> on. An exception ends the loop.
\<close>

definition append_part ::
  "LineBreakSettings \<Rightarrow> ref \<Rightarrow> nat \<Rightarrow> js_string \<Rightarrow> nat \<Rightarrow> document \<Rightarrow> dom_exception + document" where
  "append_part s fragment n part index d =
     (case (if length part > 0
            then (let (t, d1) = createTextNode part d in appendChild fragment t d1)
            else Inr d) of
        Inl e \<Rightarrow> Inl e
      | Inr d2 \<Rightarrow>
          if int index < int n - 1
          then (let (b, d3) = createLineBreak s d2 in appendChild fragment b d3)
          else Inr d2)"

fun append_parts ::
  "LineBreakSettings \<Rightarrow> ref \<Rightarrow> nat \<Rightarrow> js_string list \<Rightarrow> nat \<Rightarrow> document \<Rightarrow> dom_exception + document" where
  "append_parts s fragment n [] index d = Inr d"
| "append_parts s fragment n (part # rest) index d =
     (case append_part s fragment n part index d of
        Inl e \<Rightarrow> Inl e
      | Inr d' \<Rightarrow> append_parts s fragment n rest (Suc index) d')"

definition replaceTextNodeWithBreaks ::
  "LineBreakSettings \<Rightarrow> ref \<Rightarrow> js_string \<Rightarrow> document \<Rightarrow> dom_exception + document" where
  "replaceTextNodeWithBreaks s textNode text d =
     (let parts = split text (triggerWord s) in
      if length parts \<le> 1 then Inr d
      else case parent_of d textNode of
             None \<Rightarrow> Inr d
           | Some parent \<Rightarrow>
               (let (fragment, d1) = createDocumentFragment d in
                case append_parts s fragment (length parts) parts 0 d1 of
                  Inl e \<Rightarrow> Inl e
                | Inr d2 \<Rightarrow> replaceChild parent fragment textNode d2))"

text \<open>
  \<open>processLineBreaks\<close>. First loop: the Text nodes of the walker whose \<open>textContent\<close>
  includes the trigger word. Second loop (\<open>textNodes.forEach\<close>): each of them is read again
  and replaced. The \<open>context\<close> argument is not used by the source and is left out.
\<close>

definition collect_textNodes :: "LineBreakSettings \<Rightarrow> document \<Rightarrow> ref \<Rightarrow> ref list option" where
  "collect_textNodes s d element =
     map_option
       (filter (\<lambda>node. case textContent d node of
                         None \<Rightarrow> False
                       | Some t \<Rightarrow> string_includes t (triggerWord s)))
       (walker_nodes d element)"

definition replace_textNode :: "LineBreakSettings \<Rightarrow> ref \<Rightarrow> document \<Rightarrow> dom_exception + document" where
  "replace_textNode s textNode d =
     (let text = (case textContent d textNode of None \<Rightarrow> [] | Some t \<Rightarrow> t) in
      if string_includes text (triggerWord s) then replaceTextNodeWithBreaks s textNode text d
      else Inr d)"

fun forEach_textNode ::
  "LineBreakSettings \<Rightarrow> ref list \<Rightarrow> document \<Rightarrow> dom_exception + document" where
  "forEach_textNode s [] d = Inr d"
| "forEach_textNode s (textNode # rest) d =
     (case replace_textNode s textNode d of
        Inl e \<Rightarrow> Inl e
      | Inr d' \<Rightarrow> forEach_textNode s rest d')"

definition processLineBreaks ::
  "LineBreakSettings \<Rightarrow> ref \<Rightarrow> document \<Rightarrow> (dom_exception + document) option" where
  "processLineBreaks s element d =
     map_option (\<lambda>textNodes. forEach_textNode s textNodes d) (collect_textNodes s d element)"

definition processLivePreview ::
  "LineBreakSettings \<Rightarrow> ref \<Rightarrow> document \<Rightarrow> (dom_exception + document) option" where
  "processLivePreview s element d = processLineBreaks s element d"

text \<open>
  The two Markdown post-processors that \<open>onload\<close> registers; the host calls each with every
  rendered element.
\<close>

definition postProcessor_first ::
  "LineBreakSettings \<Rightarrow> ref \<Rightarrow> document \<Rightarrow> (dom_exception + document) option" where
  "postProcessor_first s element d =
     (if \<not> enabled s then Some (Inr d) else processLineBreaks s element d)"

definition postProcessor_second ::
  "LineBreakSettings \<Rightarrow> ref \<Rightarrow> document \<Rightarrow> (dom_exception + document) option" where
  "postProcessor_second s element d =
     (if \<not> enabled s then Some (Inr d) else processLivePreview s element d)"

section \<open>Reading the result\<close>

text \<open>\<open>Array.prototype.join\<close>: the parts with the separator between neighbours.\<close>

fun join :: "'a list \<Rightarrow> 'a list list \<Rightarrow> 'a list" where
  "join sep [] = []"
| "join sep [x] = x"
| "join sep (x # y # ys) = x @ sep @ join sep (y # ys)"

text \<open>
  The shape of the node \<open>createLineBreak\<close> makes for a break method: the kind of the node
  and, when it has content, the data of its one Text child.
\<close>

definition line_break_shape :: "LineBreakSettings \<Rightarrow> node_kind \<times> js_string option" where
  "line_break_shape s =
     (if breakMethod s = ascii ''zero-width''
      then (Element ''span'' [(''display'', ''block''), (''height'', ''1em''), (''lineHeight'', ''1em'')],
            Some [0x200B])
      else if breakMethod s = ascii ''css-break''
      then (Element ''span'' [(''display'', ''block''), (''content'', [CHR 0x22, CHR 0x22]),
                              (''marginTop'', ''1em'')], None)
      else (Element ''br'' [], None))"

definition is_line_break :: "LineBreakSettings \<Rightarrow> document \<Rightarrow> ref \<Rightarrow> bool" where
  "is_line_break s d r =
     (case lookup d r of
        None \<Rightarrow> False
      | Some n \<Rightarrow>
          kind n = fst (line_break_shape s) \<and>
          (case snd (line_break_shape s) of
             None \<Rightarrow> childNodes n = []
           | Some content \<Rightarrow>
               (case childNodes n of
                  [t] \<Rightarrow> lookup d t = Some \<lparr>kind = Text content, parentNode = Some r, childNodes = []\<rparr>
                | _ \<Rightarrow> False)))"

text \<open>
  What a node of a replacement sequence is: a text fragment with its payload, a break
  marker of the configured style, or something else.
\<close>

datatype item = TextFragment js_string | BreakMarker | OtherNode

definition item_of :: "LineBreakSettings \<Rightarrow> document \<Rightarrow> ref \<Rightarrow> item" where
  "item_of s d r =
     (case lookup d r of
        None \<Rightarrow> OtherNode
      | Some n \<Rightarrow>
          (case kind n of
             Text t \<Rightarrow> if childNodes n = [] then TextFragment t else OtherNode
           | _ \<Rightarrow> if is_line_break s d r then BreakMarker else OtherNode))"

text \<open>The text an item stands for, a break marker standing for the token.\<close>

fun item_text :: "js_string \<Rightarrow> item \<Rightarrow> js_string" where
  "item_text token (TextFragment t) = t"
| "item_text token BreakMarker = token"
| "item_text token OtherNode = []"

text \<open>The items the loop over the parts appends, from the part at \<open>index\<close> of \<open>n\<close> on.\<close>

fun items_of_parts :: "nat \<Rightarrow> js_string list \<Rightarrow> nat \<Rightarrow> item list" where
  "items_of_parts n [] index = []"
| "items_of_parts n (part # rest) index =
     (if length part > 0 then [TextFragment part] else []) @
     (if int index < int n - 1 then [BreakMarker] else []) @
     items_of_parts n rest (Suc index)"

section \<open>Well-formed documents\<close>

text \<open>
  The rendered element the host passes is the root of a tree: \<open>tree_in d p t\<close> says that
  the store \<open>d\<close> holds the tree of references \<open>t\<close> below the parent \<open>p\<close>, with the parent
  and child links that agree and children only below elements and fragments.
  \<open>subtree d element ts\<close> says that \<open>ts\<close> are the trees of the children of \<open>element\<close>, no
  node standing at two places.
\<close>

datatype tree = Node ref "tree list"

fun root :: "tree \<Rightarrow> ref" where
  "root (Node r ts) = r"

fun nodes_of :: "tree \<Rightarrow> ref list" where
  "nodes_of (Node r ts) = r # concat (map nodes_of ts)"

fun tree_in :: "document \<Rightarrow> ref \<Rightarrow> tree \<Rightarrow> bool" where
  "tree_in d p (Node r ts) =
     (r < length d \<and> parentNode (d ! r) = Some p \<and> childNodes (d ! r) = map root ts \<and>
      (ts = [] \<or> is_container (kind (d ! r))) \<and> (\<forall>t \<in> set ts. tree_in d r t))"

definition subtree :: "document \<Rightarrow> ref \<Rightarrow> tree list \<Rightarrow> bool" where
  "subtree d element ts =
     (element < length d \<and> childNodes (d ! element) = map root ts \<and>
      (ts = [] \<or> is_container (kind (d ! element))) \<and> (\<forall>t \<in> set ts. tree_in d element t) \<and>
      distinct (concat (map nodes_of ts)))"

text \<open>Every parent link of the store leads to a node of the store.\<close>

definition closed :: "document \<Rightarrow> bool" where
  "closed d = list_all (\<lambda>n. case parentNode n of None \<Rightarrow> True | Some p \<Rightarrow> p < length d) d"

text \<open>
  What appending freshly created nodes to the fragment \<open>f\<close> leaves, from the store \<open>d\<close> to the
  store \<open>d'\<close>: the nodes \<open>new\<close> were added to the children of \<open>f\<close>; they and their children
  are nodes created since \<open>d\<close>; no other node of \<open>d\<close> has changed; the parent links of the
  nodes created since \<open>d\<close> lead to nodes of \<open>d'\<close>.
\<close>

definition built :: "ref \<Rightarrow> document \<Rightarrow> document \<Rightarrow> ref list \<Rightarrow> bool" where
  "built f d d' new =
     (length d \<le> length d' \<and>
      (\<forall>r<length d. r = f \<or> d' ! r = d ! r) \<and>
      d' ! f = (d ! f)\<lparr>childNodes := childNodes (d ! f) @ new\<rparr> \<and>
      (\<forall>r\<in>set new. length d \<le> r \<and> r < length d' \<and> parentNode (d' ! r) = Some f \<and>
         (\<forall>c\<in>set (childNodes (d' ! r)).
            length d \<le> c \<and> c < length d' \<and> parentNode (d' ! c) = Some r)) \<and>
      (\<forall>r q. length d \<le> r \<and> r < length d' \<and> parentNode (d' ! r) = Some q \<longrightarrow> q < length d'))"

text \<open>
  What replacing the node \<open>t\<close>, a child of \<open>p\<close>, by the nodes \<open>new\<close> leaves, from the store
  \<open>d\<close> to the store \<open>d'\<close>: \<open>t\<close> has lost its parent, \<open>new\<close> stands for \<open>t\<close> among the children
  of \<open>p\<close>, the nodes \<open>new\<close> and their children were created since \<open>d\<close>, and no other node of
  \<open>d\<close> has changed.
\<close>

definition spliced :: "ref \<Rightarrow> ref \<Rightarrow> document \<Rightarrow> document \<Rightarrow> ref list \<Rightarrow> bool" where
  "spliced t p d d' new =
     (length d \<le> length d' \<and>
      (\<forall>r<length d. r = t \<or> r = p \<or> d' ! r = d ! r) \<and>
      d' ! t = (d ! t)\<lparr>parentNode := None\<rparr> \<and>
      d' ! p = (d ! p)\<lparr>childNodes := replace_in t new (childNodes (d ! p))\<rparr> \<and>
      (\<forall>r\<in>set new. length d \<le> r \<and> r < length d' \<and> parentNode (d' ! r) = Some p \<and>
         (\<forall>c\<in>set (childNodes (d' ! r)). length d \<le> c \<and> c < length d')))"

text \<open>
  A text node as the second loop of \<open>processLineBreaks\<close> can meet it: a Text node of the
  store that has no parent, or whose parent is an element or a fragment that lists it among
  its children.
\<close>

definition leaf_ok :: "document \<Rightarrow> ref \<Rightarrow> bool" where
  "leaf_ok d t =
     (t < length d \<and> (case kind (d ! t) of Text x \<Rightarrow> True | _ \<Rightarrow> False) \<and>
      (case parentNode (d ! t) of
         None \<Rightarrow> True
       | Some p \<Rightarrow> is_container (kind (d ! p)) \<and> t \<in> set (childNodes (d ! p))))"

text \<open>
  The text nodes the second loop replaces: the payload includes the trigger word and splits
  into at least two parts, and the node has a parent.
\<close>

definition is_replaced :: "LineBreakSettings \<Rightarrow> document \<Rightarrow> ref \<Rightarrow> bool" where
  "is_replaced s d t =
     (case kind (d ! t) of
        Text text \<Rightarrow>
          string_includes text (triggerWord s) \<and> 2 \<le> length (split text (triggerWord s)) \<and>
          parentNode (d ! t) \<noteq> None
      | _ \<Rightarrow> False)"

definition replaced_nodes :: "LineBreakSettings \<Rightarrow> document \<Rightarrow> ref list \<Rightarrow> ref set" where
  "replaced_nodes s d L = {t \<in> set L. is_replaced s d t}"

text \<open>
  What the second loop leaves, from the store \<open>d\<close> to the store \<open>d'\<close>, when \<open>T\<close> are the
  nodes it replaced and \<open>block t\<close> are the nodes put in the place of \<open>t\<close>: the nodes of \<open>d\<close>
  keep their kind; the nodes of \<open>T\<close> have lost their parent and no other node of \<open>d\<close> has
  changed its parent; only the parents of nodes of \<open>T\<close> have changed their children, and
  where such a parent listed each of them once, its children are the old ones with each
  node of \<open>T\<close> replaced by its block; the nodes of a block were created since \<open>d\<close> and are
  the items of the parts of the payload.
\<close>

definition processed ::
  "LineBreakSettings \<Rightarrow> ref set \<Rightarrow> document \<Rightarrow> document \<Rightarrow> (ref \<Rightarrow> ref list) \<Rightarrow> bool" where
  "processed s T d d' block =
     (length d \<le> length d' \<and> closed d' \<and>
      (\<forall>r<length d. kind (d' ! r) = kind (d ! r)) \<and>
      (\<forall>r<length d. parentNode (d' ! r) = (if r \<in> T then None else parentNode (d ! r))) \<and>
      (\<forall>q<length d. (\<exists>t\<in>T. parentNode (d ! t) = Some q) \<or> childNodes (d' ! q) = childNodes (d ! q)) \<and>
      (\<forall>q<length d.
         (\<forall>c\<in>T. c \<in> set (childNodes (d ! q)) \<longrightarrow>
                 parentNode (d ! c) = Some q \<and> count_list (childNodes (d ! q)) c = 1) \<longrightarrow>
         childNodes (d' ! q) =
           concat (map (\<lambda>c. if c \<in> T then block c else [c]) (childNodes (d ! q)))) \<and>
      (\<forall>t\<in>T. (\<forall>r\<in>set (block t). length d \<le> r) \<and>
         (\<forall>x. kind (d ! t) = Text x \<longrightarrow>
            map (item_of s d') (block t) =
              items_of_parts (length (split x (triggerWord s))) (split x (triggerWord s)) 0)))"

section \<open>Example documents\<close>

text \<open>
  A paragraph with two text nodes, \<open>a\<close> and \<open>x.break.y\<close>, and what \<open>processLineBreaks\<close>
  makes of it with the default settings: node 3 is the fragment, nodes 4 to 7 the
  replacement of node 2.
\<close>

definition example_document :: document where
  "example_document =
     [\<lparr>kind = Element ''p'' [], parentNode = None, childNodes = [1, 2]\<rparr>,
      \<lparr>kind = Text (ascii ''a''), parentNode = Some 0, childNodes = []\<rparr>,
      \<lparr>kind = Text (ascii ''x.break.y''), parentNode = Some 0, childNodes = []\<rparr>]"

definition example_result :: document where
  "example_result =
     [\<lparr>kind = Element ''p'' [], parentNode = None, childNodes = [1, 4, 5, 7]\<rparr>,
      \<lparr>kind = Text (ascii ''a''), parentNode = Some 0, childNodes = []\<rparr>,
      \<lparr>kind = Text (ascii ''x.break.y''), parentNode = None, childNodes = []\<rparr>,
      \<lparr>kind = DocumentFragment, parentNode = None, childNodes = []\<rparr>,
      \<lparr>kind = Text (ascii ''x''), parentNode = Some 0, childNodes = []\<rparr>,
      \<lparr>kind = Element ''span'' [(''display'', ''block''), (''height'', ''1em''), (''lineHeight'', ''1em'')],
        parentNode = Some 0, childNodes = [6]\<rparr>,
      \<lparr>kind = Text [0x200B], parentNode = Some 5, childNodes = []\<rparr>,
      \<lparr>kind = Text (ascii ''y''), parentNode = Some 0, childNodes = []\<rparr>]"

section \<open>Strings: the search and the split\<close>

lemma stringIndexOf_SomeD:
  assumes "stringIndexOf S R i = Some j"
  shows "i \<le> j" "j + length R \<le> length S" "take (length R) (drop j S) = R"
    "\<And>k. i \<le> k \<Longrightarrow> k < j \<Longrightarrow> take (length R) (drop k S) \<noteq> R"
proof -
  show "i \<le> j" using assms
    by (auto simp: stringIndexOf_def Let_def find_Some_iff simp del: upt_Suc split: if_splits)
  show "j + length R \<le> length S" using assms
    by (auto simp: stringIndexOf_def Let_def find_Some_iff simp del: upt_Suc split: if_splits)
  show "take (length R) (drop j S) = R" using assms
    by (auto simp: stringIndexOf_def Let_def find_Some_iff simp del: upt_Suc split: if_splits)
  show "\<And>k. i \<le> k \<Longrightarrow> k < j \<Longrightarrow> take (length R) (drop k S) \<noteq> R"
  proof -
    fix k assume k: "i \<le> k" "k < j"
    show "take (length R) (drop k S) \<noteq> R"
    proof (cases "R = [] \<and> i \<le> length S")
      case True
      with assms have "j = i" by (simp add: stringIndexOf_def)
      with k show ?thesis by simp
    next
      case False
      with assms obtain m where m: "m < length [i..<Suc (length S - length R)]"
        "j = [i..<Suc (length S - length R)] ! m"
        "\<forall>l<m. take (length R) (drop ([i..<Suc (length S - length R)] ! l) S) \<noteq> R"
        by (auto simp: stringIndexOf_def Let_def find_Some_iff simp del: upt_Suc split: if_splits)
      from m(1,2) have jm: "j = i + m" by (simp del: upt_Suc)
      with k have "k - i < m" by arith
      with m(3) have "take (length R) (drop ([i..<Suc (length S - length R)] ! (k - i)) S) \<noteq> R"
        by blast
      moreover have "[i..<Suc (length S - length R)] ! (k - i) = k"
        using k m(1) jm by (simp del: upt_Suc)
      ultimately show ?thesis by simp
    qed
  qed
qed

lemma stringIndexOf_NoneD:
  assumes "stringIndexOf S R i = None" "i \<le> k" "k + length R \<le> length S"
  shows "take (length R) (drop k S) \<noteq> R"
proof -
  from assms have "R \<noteq> []" by (auto simp: stringIndexOf_def Let_def split: if_splits)
  with assms have "\<not> (\<exists>x. x \<in> set [i..<Suc (length S - length R)] \<and> take (length R) (drop x S) = R)"
    by (auto simp: stringIndexOf_def Let_def find_None_iff simp del: upt_Suc split: if_splits)
  moreover have "k \<in> set [i..<Suc (length S - length R)]" using assms by (auto simp del: upt_Suc)
  ultimately show ?thesis by blast
qed

lemma stringIndexOf_SomeI:
  assumes "i \<le> j" "j + length R \<le> length S" "take (length R) (drop j S) = R"
    "\<And>k. i \<le> k \<Longrightarrow> k < j \<Longrightarrow> take (length R) (drop k S) \<noteq> R"
  shows "stringIndexOf S R i = Some j"
proof (cases "stringIndexOf S R i")
  case None
  from stringIndexOf_NoneD [OF None assms(1,2)] assms(3) show ?thesis by simp
next
  case (Some j')
  note D = stringIndexOf_SomeD [OF Some]
  have "\<not> j' < j" using D(1,3) assms(4) by blast
  moreover have "\<not> j < j'" using D(4) assms(1,3) by blast
  ultimately show ?thesis using Some by simp
qed

lemma split_loop_not_Nil: "split_loop S R i \<noteq> []"
  by (subst split_loop.simps) (simp split: option.split)

lemma join_Cons: "ys \<noteq> [] \<Longrightarrow> join sep (x # ys) = x @ sep @ join sep ys"
  by (cases ys) simp_all

lemma split_loop_join: "R \<noteq> [] \<Longrightarrow> i \<le> length S \<Longrightarrow> join R (split_loop S R i) = drop i S"
proof (induction S R i rule: split_loop.induct)
  case (1 S R i)
  show ?case
  proof (cases "stringIndexOf S R i")
    case None
    with "1.prems" show ?thesis by (subst split_loop.simps) simp
  next
    case (Some j)
    note D = stringIndexOf_SomeD [OF Some]
    have IH: "join R (split_loop S R (j + length R)) = drop (j + length R) S"
      using "1.IH" [OF _ Some] "1.prems" D(2) by simp
    have "drop i S = take (j - i) (drop i S) @ drop j S"
      using D(1) by (metis append_take_drop_id drop_drop le_add_diff_inverse2)
    also have "drop j S = take (length R) (drop j S) @ drop (j + length R) S"
      by (metis append_take_drop_id drop_drop add.commute)
    finally have "drop i S = take (j - i) (drop i S) @ R @ drop (j + length R) S"
      using D(3) by simp
    then show ?thesis
      using Some "1.prems" IH
      by (subst split_loop.simps) (simp add: join_Cons split_loop_not_Nil)
  qed
qed

lemma occurrences_none:
  "(\<And>k. k + length R \<le> length T \<Longrightarrow> take (length R) (drop k T) \<noteq> R) \<Longrightarrow> occurrences R T = 0"
proof (induction R T rule: occurrences.induct)
  case (1 R T)
  show ?case
  proof (cases "R = [] \<or> length T < length R")
    case True
    then show ?thesis by (subst occurrences.simps) simp
  next
    case False
    from "1.prems" [of 0] False have nm: "take (length R) T \<noteq> R" by simp
    have "occurrences R (tl T) = 0"
    proof (rule "1.IH"(2) [OF False nm])
      fix k assume "k + length R \<le> length (tl T)"
      then have "Suc k + length R \<le> length T" using False by (cases T) auto
      from "1.prems" [OF this] show "take (length R) (drop k (tl T)) \<noteq> R"
        by (simp add: drop_Suc)
    qed
    with False nm show ?thesis by (subst occurrences.simps) simp
  qed
qed

lemma occurrences_first:
  "R \<noteq> [] \<Longrightarrow> m + length R \<le> length T \<Longrightarrow> take (length R) (drop m T) = R \<Longrightarrow>
   (\<And>k. k < m \<Longrightarrow> take (length R) (drop k T) \<noteq> R) \<Longrightarrow>
   occurrences R T = Suc (occurrences R (drop (m + length R) T))"
proof (induction m arbitrary: T)
  case 0
  then show ?case by (subst occurrences.simps) simp
next
  case (Suc m)
  from Suc.prems(4) [of 0] have nm: "take (length R) T \<noteq> R" by simp
  from Suc.prems(2) have len: "\<not> length T < length R" by simp
  have "occurrences R (tl T) = Suc (occurrences R (drop (m + length R) (tl T)))"
  proof (rule Suc.IH [OF Suc.prems(1)])
    show "m + length R \<le> length (tl T)" using Suc.prems(2) by simp
    show "take (length R) (drop m (tl T)) = R" using Suc.prems(3) by (simp add: drop_Suc)
    fix k assume "k < m"
    then have "Suc k < Suc m" by simp
    from Suc.prems(4) [OF this] show "take (length R) (drop k (tl T)) \<noteq> R"
      by (simp add: drop_Suc)
  qed
  then show ?case using nm len Suc.prems(1)
    by (subst occurrences.simps) (simp add: drop_Suc)
qed

lemma split_loop_length:
  "R \<noteq> [] \<Longrightarrow> i \<le> length S \<Longrightarrow> length (split_loop S R i) = Suc (occurrences R (drop i S))"
proof (induction S R i rule: split_loop.induct)
  case (1 S R i)
  show ?case
  proof (cases "stringIndexOf S R i")
    case None
    have "occurrences R (drop i S) = 0"
    proof (rule occurrences_none)
      fix k assume "k + length R \<le> length (drop i S)"
      then have "i + k + length R \<le> length S" using "1.prems" by simp
      from stringIndexOf_NoneD [OF None _ this] show "take (length R) (drop k (drop i S)) \<noteq> R"
        by (simp add: add.commute)
    qed
    with None "1.prems" show ?thesis by (subst split_loop.simps) simp
  next
    case (Some j)
    note D = stringIndexOf_SomeD [OF Some]
    have IH: "length (split_loop S R (j + length R)) = Suc (occurrences R (drop (j + length R) S))"
      using "1.IH" [OF _ Some] "1.prems" D(2) by simp
    have "occurrences R (drop i S) = Suc (occurrences R (drop (j - i + length R) (drop i S)))"
    proof (rule occurrences_first [OF "1.prems"(1)])
      show "j - i + length R \<le> length (drop i S)" using D(1,2) by simp
      show "take (length R) (drop (j - i) (drop i S)) = R" using D(1,3) by simp
      fix k assume "k < j - i"
      then have "i \<le> i + k" "i + k < j" by simp_all
      from D(4) [OF this] show "take (length R) (drop k (drop i S)) \<noteq> R"
        by (simp add: add.commute)
    qed
    moreover have "drop (j - i + length R) (drop i S) = drop (j + length R) S"
      using D(1) by simp
    ultimately show ?thesis using Some "1.prems" IH
      by (subst split_loop.simps) simp
  qed
qed

section \<open>The operations on the store\<close>

lemma length_update_node [simp]: "length (update_node r f d) = length d"
  by (simp add: update_node_def)

lemma nth_update_node:
  "update_node r f d ! q = (if q = r \<and> r < length d then f (d ! r) else d ! q)"
  by (simp add: update_node_def)

lemma lookup_Some: "r < length d \<Longrightarrow> lookup d r = Some (d ! r)"
  by (simp add: lookup_def)

lemma parent_of_nth: "r < length d \<Longrightarrow> parent_of d r = parentNode (d ! r)"
  by (simp add: parent_of_def lookup_def)

lemma length_set_parent [simp]: "length (set_parent new p d) = length d"
  unfolding set_parent_def by (induction new arbitrary: d) simp_all

lemma nth_set_parent:
  "set_parent new p d ! r =
     (if r \<in> set new \<and> r < length d then (d ! r)\<lparr>parentNode := Some p\<rparr> else d ! r)"
  unfolding set_parent_def
proof (induction new arbitrary: d)
  case Nil
  show ?case by simp
next
  case (Cons c cs)
  show ?case by (auto simp: Cons.IH nth_update_node)
qed

lemma ancestor_within_no_parent:
  "parent_of d r = None \<Longrightarrow> ancestor_within n d a r = (a = r)"
  by (cases n) simp_all

lemma ancestor_within_old:
  assumes "\<And>r q. r < m \<Longrightarrow> parent_of d r = Some q \<Longrightarrow> q < m" and "m \<le> a"
  shows "r < m \<Longrightarrow> \<not> ancestor_within n d a r"
proof (induction n arbitrary: r)
  case 0
  with assms(2) show ?case by simp
next
  case (Suc n)
  show ?case
  proof (cases "parent_of d r")
    case None
    with Suc.prems assms(2) show ?thesis by simp
  next
    case (Some q)
    from assms(1) [OF Suc.prems Some] have "q < m" .
    from Suc.IH [OF this] Some Suc.prems assms(2) show ?thesis by simp
  qed
qed

text \<open>Appending a node that was just created to a fragment.\<close>

lemma appendChild_fresh:
  assumes "f < length d" "kind (d ! f) = DocumentFragment" "parentNode (d ! f) = None"
    and "t < length d" "t \<noteq> f" "parentNode (d ! t) = None" "kind (d ! t) \<noteq> DocumentFragment"
  shows "appendChild f t d =
           Inr (update_node f (\<lambda>n. n\<lparr>childNodes := childNodes n @ [t]\<rparr>)
                 (update_node t (\<lambda>n. n\<lparr>parentNode := Some f\<rparr>) d))"
proof -
  have "\<not> inclusive_ancestor d t f"
    using assms by (simp add: inclusive_ancestor_def ancestor_within_no_parent parent_of_nth)
  moreover have "take_for_insertion t d = ([t], d)"
    using assms by (simp add: take_for_insertion_def lookup_Some remove_from_parent_def parent_of_nth)
  ultimately show ?thesis
    using assms by (simp add: appendChild_def lookup_Some is_container_def set_parent_def)
qed

section \<open>Building the fragment\<close>

lemma built_refl: "built f d d []"
  by (simp add: built_def)

lemma built_trans:
  assumes 1: "built f d d' new1" and 2: "built f d' d'' new2" and f: "f < length d"
  shows "built f d d'' (new1 @ new2)"
proof -
  have keep: "d'' ! r = d' ! r" if "r < length d'" "r \<noteq> f" for r
    using 2 that by (auto simp: built_def)
  have len: "length d \<le> length d'" "length d' \<le> length d''"
    using 1 2 by (auto simp: built_def)
  have a: "\<forall>r<length d. r = f \<or> d'' ! r = d ! r"
  proof (intro allI impI)
    fix r assume r: "r < length d"
    show "r = f \<or> d'' ! r = d ! r"
    proof (cases "r = f")
      case False
      with keep [of r] r len have "d'' ! r = d' ! r" by simp
      moreover from 1 r False have "d' ! r = d ! r" by (auto simp: built_def)
      ultimately show ?thesis by simp
    qed simp
  qed
  have b: "d'' ! f = (d ! f)\<lparr>childNodes := childNodes (d ! f) @ new1 @ new2\<rparr>"
    using 1 2 by (simp add: built_def)
  have c1: "length d \<le> r \<and> r < length d'' \<and> parentNode (d'' ! r) = Some f \<and>
         (\<forall>c\<in>set (childNodes (d'' ! r)).
            length d \<le> c \<and> c < length d'' \<and> parentNode (d'' ! c) = Some r)"
    if "r \<in> set new1" for r
  proof -
    from 1 that have r: "length d \<le> r" "r < length d'" "parentNode (d' ! r) = Some f"
      and cs: "\<forall>c\<in>set (childNodes (d' ! r)).
            length d \<le> c \<and> c < length d' \<and> parentNode (d' ! c) = Some r"
      by (auto simp: built_def)
    from r f have eq: "d'' ! r = d' ! r" by (intro keep) auto
    have "parentNode (d'' ! c) = Some r \<and> length d \<le> c \<and> c < length d''"
      if "c \<in> set (childNodes (d' ! r))" for c
    proof -
      from cs that have c: "length d \<le> c" "c < length d'" "parentNode (d' ! c) = Some r" by auto
      with f have "d'' ! c = d' ! c" by (intro keep) auto
      with c len show ?thesis by simp
    qed
    with r eq len show ?thesis by auto
  qed
  have c2: "length d \<le> r \<and> r < length d'' \<and> parentNode (d'' ! r) = Some f \<and>
         (\<forall>c\<in>set (childNodes (d'' ! r)).
            length d \<le> c \<and> c < length d'' \<and> parentNode (d'' ! c) = Some r)"
    if "r \<in> set new2" for r
    using 2 that len unfolding built_def by fastforce
  have e: "q < length d''" if "length d \<le> r" "r < length d''" "parentNode (d'' ! r) = Some q" for r q
  proof (cases "r < length d'")
    case True
    with that f have "d'' ! r = d' ! r" by (intro keep) auto
    with that True 1 have "q < length d'" unfolding built_def by metis
    with len show ?thesis by simp
  next
    case False
    with that 2 show ?thesis unfolding built_def by (metis not_less)
  qed
  have c: "\<forall>r\<in>set (new1 @ new2). length d \<le> r \<and> r < length d'' \<and> parentNode (d'' ! r) = Some f \<and>
         (\<forall>c\<in>set (childNodes (d'' ! r)).
            length d \<le> c \<and> c < length d'' \<and> parentNode (d'' ! c) = Some r)"
    using c1 c2 by (metis Un_iff set_append)
  have e': "\<forall>r q. length d \<le> r \<and> r < length d'' \<and> parentNode (d'' ! r) = Some q \<longrightarrow> q < length d''"
    using e by blast
  from len have "length d \<le> length d''" by simp
  with a b c e' show ?thesis
    unfolding built_def by (intro conjI)
qed

lemma is_line_break_cong:
  assumes "r < length d" "r < length d'" "kind (d' ! r) = kind (d ! r)"
    "childNodes (d' ! r) = childNodes (d ! r)"
    "\<And>c. c \<in> set (childNodes (d ! r)) \<Longrightarrow> c < length d \<and> c < length d' \<and> d' ! c = d ! c"
  shows "is_line_break s d' r = is_line_break s d r"
proof (cases "childNodes (d ! r)")
  case Nil
  with assms(1-4) show ?thesis by (simp add: is_line_break_def lookup_def split: option.split)
next
  case (Cons c cs)
  with assms(5) [of c] have "c < length d \<and> c < length d' \<and> d' ! c = d ! c" by simp
  with assms(1-4) Cons show ?thesis
    by (simp add: is_line_break_def lookup_def split: option.split list.split)
qed

lemma item_of_cong:
  assumes "r < length d" "r < length d'" "kind (d' ! r) = kind (d ! r)"
    "childNodes (d' ! r) = childNodes (d ! r)"
    "\<And>c. c \<in> set (childNodes (d ! r)) \<Longrightarrow> c < length d \<and> c < length d' \<and> d' ! c = d ! c"
  shows "item_of s d' r = item_of s d r"
  using assms(1-4) is_line_break_cong [OF assms, of s]
  by (simp add: item_of_def lookup_def split: node_kind.split)

lemma built_item_of:
  assumes b: "built f d d' new" and r: "r < length d" "r \<noteq> f"
    and c: "\<And>c. c \<in> set (childNodes (d ! r)) \<Longrightarrow> c < length d \<and> c \<noteq> f"
  shows "item_of s d' r = item_of s d r"
proof (rule item_of_cong)
  have keep: "d' ! q = d ! q" if "q < length d" "q \<noteq> f" for q
    using b that by (auto simp: built_def)
  from b have len: "length d \<le> length d'" by (simp add: built_def)
  show "r < length d" by fact
  show "r < length d'" using r len by simp
  show "kind (d' ! r) = kind (d ! r)" "childNodes (d' ! r) = childNodes (d ! r)"
    using keep [OF r] by simp_all
  fix q assume "q \<in> set (childNodes (d ! r))"
  from c [OF this] keep [of q] len show "q < length d \<and> q < length d' \<and> d' ! q = d ! q" by simp
qed

lemma createLineBreak_zero_width:
  "breakMethod s = ascii ''zero-width'' \<Longrightarrow>
   createLineBreak s d =
     (length d,
      d @ [\<lparr>kind = Element ''span'' [(''display'', ''block''), (''height'', ''1em''), (''lineHeight'', ''1em'')],
             parentNode = None, childNodes = [Suc (length d)]\<rparr>,
           \<lparr>kind = Text [0x200B], parentNode = Some (length d), childNodes = []\<rparr>])"
  by (simp add: createLineBreak_def createElement_def createNode_def style_set_def update_node_def
      innerHTML_set_def children_def lookup_def createTextNode_def nth_append Let_def
      list_update_append)

lemma ascii_neq:
  "ascii ''zero-width'' \<noteq> ascii ''html-br''" "ascii ''zero-width'' \<noteq> ascii ''css-break''"
  "ascii ''html-br'' \<noteq> ascii ''css-break''" "ascii ''html-br'' \<noteq> ascii ''zero-width''"
  "ascii ''css-break'' \<noteq> ascii ''zero-width''" "ascii ''css-break'' \<noteq> ascii ''html-br''"
  by (simp_all add: ascii_def)

lemma createLineBreak_css_break:
  "breakMethod s = ascii ''css-break'' \<Longrightarrow>
   createLineBreak s d =
     (length d,
      d @ [\<lparr>kind = Element ''span'' [(''display'', ''block''), (''content'', [CHR 0x22, CHR 0x22]),
                                      (''marginTop'', ''1em'')],
             parentNode = None, childNodes = []\<rparr>])"
  by (simp add: createLineBreak_def createElement_def createNode_def style_set_def update_node_def
      nth_append Let_def ascii_neq)

lemma createLineBreak_br:
  "breakMethod s \<noteq> ascii ''zero-width'' \<Longrightarrow> breakMethod s \<noteq> ascii ''css-break'' \<Longrightarrow>
   createLineBreak s d = (length d, d @ [\<lparr>kind = Element ''br'' [], parentNode = None, childNodes = []\<rparr>])"
  by (simp add: createLineBreak_def createElement_def createNode_def)

text \<open>Appending a fresh text node to the fragment.\<close>

lemma append_text:
  assumes f: "f < length d" "kind (d ! f) = DocumentFragment" "parentNode (d ! f) = None"
  shows "\<exists>d'. (let (t, d1) = createTextNode part d in appendChild f t d1) = Inr d' \<and>
           built f d d' [length d] \<and> item_of s d' (length d) = TextFragment part"
proof -
  let ?d1 = "d @ [\<lparr>kind = Text part, parentNode = None, childNodes = []\<rparr>]"
  let ?d' = "update_node f (\<lambda>n. n\<lparr>childNodes := childNodes n @ [length d]\<rparr>)
                 (update_node (length d) (\<lambda>n. n\<lparr>parentNode := Some f\<rparr>) ?d1)"
  have "appendChild f (length d) ?d1 = Inr ?d'"
    using f by (intro appendChild_fresh) (simp_all add: nth_append)
  moreover have "built f d ?d' [length d]"
    using f by (simp add: built_def nth_update_node nth_append)
  moreover have "item_of s ?d' (length d) = TextFragment part"
    using f by (simp add: item_of_def lookup_def nth_update_node nth_append)
  ultimately show ?thesis
    by (simp add: createTextNode_def createNode_def)
qed

lemma append_break:
  assumes f: "f < length d" "kind (d ! f) = DocumentFragment" "parentNode (d ! f) = None"
  shows "\<exists>d'. (let (b, d1) = createLineBreak s d in appendChild f b d1) = Inr d' \<and>
           built f d d' [length d] \<and> item_of s d' (length d) = BreakMarker"
proof -
  consider (zw) "breakMethod s = ascii ''zero-width''" | (css) "breakMethod s = ascii ''css-break''"
    | (br) "breakMethod s \<noteq> ascii ''zero-width''" "breakMethod s \<noteq> ascii ''css-break''"
    by blast
  then show ?thesis
  proof cases
    case zw
    let ?d1 = "d @ [\<lparr>kind = Element ''span'' [(''display'', ''block''), (''height'', ''1em''), (''lineHeight'', ''1em'')],
             parentNode = None, childNodes = [Suc (length d)]\<rparr>,
           \<lparr>kind = Text [0x200B], parentNode = Some (length d), childNodes = []\<rparr>]"
    let ?d' = "update_node f (\<lambda>n. n\<lparr>childNodes := childNodes n @ [length d]\<rparr>)
                 (update_node (length d) (\<lambda>n. n\<lparr>parentNode := Some f\<rparr>) ?d1)"
    have "appendChild f (length d) ?d1 = Inr ?d'"
      using f by (intro appendChild_fresh) (simp_all add: nth_append)
    moreover have "built f d ?d' [length d]"
      using f by (auto simp: built_def nth_update_node nth_append less_Suc_eq)
    moreover have "item_of s ?d' (length d) = BreakMarker"
      using f zw by (simp add: item_of_def is_line_break_def line_break_shape_def lookup_def
          nth_update_node nth_append)
    ultimately show ?thesis
      by (simp add: createLineBreak_zero_width [OF zw])
  next
    case css
    let ?d1 = "d @ [\<lparr>kind = Element ''span'' [(''display'', ''block''), (''content'', [CHR 0x22, CHR 0x22]),
                                      (''marginTop'', ''1em'')],
             parentNode = None, childNodes = []\<rparr>]"
    let ?d' = "update_node f (\<lambda>n. n\<lparr>childNodes := childNodes n @ [length d]\<rparr>)
                 (update_node (length d) (\<lambda>n. n\<lparr>parentNode := Some f\<rparr>) ?d1)"
    have "appendChild f (length d) ?d1 = Inr ?d'"
      using f by (intro appendChild_fresh) (simp_all add: nth_append)
    moreover have "built f d ?d' [length d]"
      using f by (simp add: built_def nth_update_node nth_append)
    moreover have "item_of s ?d' (length d) = BreakMarker"
      using f css by (simp add: item_of_def is_line_break_def line_break_shape_def lookup_def
          nth_update_node nth_append ascii_neq)
    ultimately show ?thesis
      by (simp add: createLineBreak_css_break [OF css])
  next
    case br
    let ?d1 = "d @ [\<lparr>kind = Element ''br'' [], parentNode = None, childNodes = []\<rparr>]"
    let ?d' = "update_node f (\<lambda>n. n\<lparr>childNodes := childNodes n @ [length d]\<rparr>)
                 (update_node (length d) (\<lambda>n. n\<lparr>parentNode := Some f\<rparr>) ?d1)"
    have "appendChild f (length d) ?d1 = Inr ?d'"
      using f by (intro appendChild_fresh) (simp_all add: nth_append)
    moreover have "built f d ?d' [length d]"
      using f by (simp add: built_def nth_update_node nth_append)
    moreover have "item_of s ?d' (length d) = BreakMarker"
      using f br by (simp add: item_of_def is_line_break_def line_break_shape_def lookup_def
          nth_update_node nth_append)
    ultimately show ?thesis
      by (simp add: createLineBreak_br [OF br])
  qed
qed

lemma built_fragment:
  assumes "built f d d' new" "f < length d" "kind (d ! f) = DocumentFragment" "parentNode (d ! f) = None"
  shows "f < length d'" "kind (d' ! f) = DocumentFragment" "parentNode (d' ! f) = None"
  using assms by (simp_all add: built_def)

lemma built_items:
  assumes 1: "built f d d' new" and 2: "built f d' d'' new2" and f: "f < length d"
  shows "map (item_of s d'') new = map (item_of s d') new"
proof (rule map_cong [OF refl])
  fix r assume "r \<in> set new"
  with 1 have r: "length d \<le> r" "r < length d'"
    and cs: "\<forall>c\<in>set (childNodes (d' ! r)). length d \<le> c \<and> c < length d'"
    by (auto simp: built_def)
  show "item_of s d'' r = item_of s d' r"
  proof (rule built_item_of [OF 2])
    show "r < length d'" by fact
    show "r \<noteq> f" using r f by simp
    fix c assume "c \<in> set (childNodes (d' ! r))"
    with cs f show "c < length d' \<and> c \<noteq> f" by auto
  qed
qed

lemma append_part_built:
  assumes f: "f < length d" "kind (d ! f) = DocumentFragment" "parentNode (d ! f) = None"
  shows "\<exists>d' new. append_part s f n part i d = Inr d' \<and> built f d d' new \<and>
           map (item_of s d') new =
             (if length part > 0 then [TextFragment part] else []) @
             (if int i < int n - 1 then [BreakMarker] else [])"
proof -
  obtain d1 new1 where 1: "(if length part > 0
            then (let (t, d1) = createTextNode part d in appendChild f t d1)
            else Inr d) = Inr d1" "built f d d1 new1"
      "map (item_of s d1) new1 = (if length part > 0 then [TextFragment part] else [])"
  proof (cases "length part > 0")
    case True
    from append_text [OF f, of part s] obtain d' where
      "(let (t, d1) = createTextNode part d in appendChild f t d1) = Inr d'"
      "built f d d' [length d]" "item_of s d' (length d) = TextFragment part" by blast
    with True that [of d' "[length d]"] show ?thesis by simp
  next
    case False
    with that [of d "[]"] built_refl [of f d] show ?thesis by simp
  qed
  note f1 = built_fragment [OF 1(2) f]
  obtain d2 new2 where 2: "(if int i < int n - 1
          then (let (b, d3) = createLineBreak s d1 in appendChild f b d3)
          else Inr d1) = Inr d2" "built f d1 d2 new2"
      "map (item_of s d2) new2 = (if int i < int n - 1 then [BreakMarker] else [])"
  proof (cases "int i < int n - 1")
    case True
    from append_break [OF f1, of s] obtain d' where
      "(let (b, d3) = createLineBreak s d1 in appendChild f b d3) = Inr d'"
      "built f d1 d' [length d1]" "item_of s d' (length d1) = BreakMarker" by blast
    with True that [of d' "[length d1]"] show ?thesis by simp
  next
    case False
    with that [of d1 "[]"] built_refl [of f d1] show ?thesis by simp
  qed
  have "append_part s f n part i d = Inr d2"
    using 1(1) 2(1) by (simp add: append_part_def)
  moreover have "built f d d2 (new1 @ new2)"
    by (rule built_trans [OF 1(2) 2(2) f(1)])
  moreover have "map (item_of s d2) (new1 @ new2) =
             (if length part > 0 then [TextFragment part] else []) @
             (if int i < int n - 1 then [BreakMarker] else [])"
    using built_items [OF 1(2) 2(2) f(1), of s] 1(3) 2(3) by simp
  ultimately show ?thesis by blast
qed

lemma append_parts_built:
  assumes f: "f < length d" "kind (d ! f) = DocumentFragment" "parentNode (d ! f) = None"
  shows "\<exists>d' new. append_parts s f n parts i d = Inr d' \<and> built f d d' new \<and>
           map (item_of s d') new = items_of_parts n parts i"
  using f
proof (induction parts arbitrary: i d)
  case Nil
  then show ?case using built_refl [of f d] by auto
next
  case (Cons part rest)
  from append_part_built [OF Cons.prems, of s n part i] obtain d1 new1 where
    1: "append_part s f n part i d = Inr d1" "built f d d1 new1"
       "map (item_of s d1) new1 =
             (if length part > 0 then [TextFragment part] else []) @
             (if int i < int n - 1 then [BreakMarker] else [])" by blast
  note f1 = built_fragment [OF 1(2) Cons.prems]
  from Cons.IH [OF f1, of "Suc i"] obtain d2 new2 where
    2: "append_parts s f n rest (Suc i) d1 = Inr d2" "built f d1 d2 new2"
       "map (item_of s d2) new2 = items_of_parts n rest (Suc i)" by blast
  have "append_parts s f n (part # rest) i d = Inr d2"
    using 1(1) 2(1) by simp
  moreover have "built f d d2 (new1 @ new2)"
    by (rule built_trans [OF 1(2) 2(2) Cons.prems(1)])
  moreover have "map (item_of s d2) (new1 @ new2) = items_of_parts n (part # rest) i"
    using built_items [OF 1(2) 2(2) Cons.prems(1), of s] 1(3) 2(3) by simp
  ultimately show ?case by blast
qed

section \<open>Replacing one text node\<close>

lemma closed_nth: "closed d \<Longrightarrow> r < length d \<Longrightarrow> parentNode (d ! r) = Some q \<Longrightarrow> q < length d"
  by (auto simp: closed_def list_all_length split: option.splits)

lemma closedI:
  "(\<And>r q. r < length d \<Longrightarrow> parentNode (d ! r) = Some q \<Longrightarrow> q < length d) \<Longrightarrow> closed d"
  by (auto simp: closed_def list_all_length split: option.splits)

lemma built_keep: "built f d d' new \<Longrightarrow> r < length d \<Longrightarrow> r \<noteq> f \<Longrightarrow> d' ! r = d ! r"
  by (auto simp: built_def)

lemma replaceTextNodeWithBreaks_spliced:
  assumes cl: "closed d"
    and t: "t < length d" "parentNode (d ! t) = Some p" "t \<noteq> p"
    and p: "is_container (kind (d ! p))"
    and parts: "2 \<le> length (split text (triggerWord s))"
  shows "\<exists>d' new. replaceTextNodeWithBreaks s t text d = Inr d' \<and> spliced t p d d' new \<and>
           closed d' \<and>
           map (item_of s d') new =
             items_of_parts (length (split text (triggerWord s))) (split text (triggerWord s)) 0"
proof -
  define parts where "parts = split text (triggerWord s)"
  define f where "f = length d"
  define d1 where "d1 = d @ [\<lparr>kind = DocumentFragment, parentNode = None, childNodes = []\<rparr>]"
  from closed_nth [OF cl t(1,2)] have pd: "p < length d" .
  have f1: "f < length d1" "kind (d1 ! f) = DocumentFragment" "parentNode (d1 ! f) = None"
    by (simp_all add: f_def d1_def)
  from append_parts_built [OF f1, of s "length parts" parts 0] obtain d2 new where
    ap: "append_parts s f (length parts) parts 0 d1 = Inr d2" and b: "built f d1 d2 new"
    and items: "map (item_of s d2) new = items_of_parts (length parts) parts 0" by blast
  have len: "length d1 = Suc (length d)" "length d1 \<le> length d2"
    using b by (simp_all add: d1_def built_def)
  have old: "d2 ! r = d ! r" if "r < length d" for r
  proof -
    from that have "r < length d1" "r \<noteq> f" by (simp_all add: d1_def f_def)
    from built_keep [OF b this] that show ?thesis by (simp add: d1_def nth_append)
  qed
  have frag: "d2 ! f = \<lparr>kind = DocumentFragment, parentNode = None, childNodes = new\<rparr>"
    using b by (simp add: built_def d1_def f_def)
  have new: "length d1 \<le> r" "r < length d2" "parentNode (d2 ! r) = Some f"
    if "r \<in> set new" for r
    using b that by (auto simp: built_def)
  have newc: "length d1 \<le> c" "c < length d2" "parentNode (d2 ! c) = Some r"
    if "r \<in> set new" "c \<in> set (childNodes (d2 ! r))" for r c
    using b that by (auto simp: built_def)
  have notnew: "c \<notin> set new" if "r \<in> set new" "c \<in> set (childNodes (d2 ! r))" for r c
  proof
    assume "c \<in> set new"
    from new(3) [OF this] newc(3) [OF that] have "r = f" by simp
    with new(1) [OF that(1)] len show False by (simp add: f_def)
  qed
  have cl2: "q < length d2" if "length d1 \<le> r" "r < length d2" "parentNode (d2 ! r) = Some q" for r q
    using b that unfolding built_def by blast
  text \<open>The call of replaceChild.\<close>
  define d' where "d' =
     update_node t (\<lambda>n. n\<lparr>parentNode := None\<rparr>)
       (update_node p (\<lambda>n. n\<lparr>childNodes := replace_in t new (childNodes n)\<rparr>)
         (set_parent new p (update_node f (\<lambda>n. n\<lparr>childNodes := []\<rparr>) d2)))"
  have anc: "\<not> inclusive_ancestor d2 f p"
    unfolding inclusive_ancestor_def
  proof (rule ancestor_within_old [where m = "length d"])
    fix r q assume r: "r < length d" and "parent_of d2 r = Some q"
    with len have "parentNode (d2 ! r) = Some q" by (simp add: parent_of_nth)
    with old [OF r] have "parentNode (d ! r) = Some q" by simp
    from closed_nth [OF cl r this] show "q < length d" .
  qed (simp_all add: f_def pd)
  have tk: "take_for_insertion f d2 = (new, update_node f (\<lambda>n. n\<lparr>childNodes := []\<rparr>) d2)"
    using len frag by (simp add: take_for_insertion_def lookup_def f_def)
  have rc: "replaceChild p f t d2 = Inr d'"
    using len pd t p old [OF pd] old [OF t(1)] anc tk
    by (simp add: replaceChild_def lookup_def f_def d'_def)
  have res: "replaceTextNodeWithBreaks s t text d = Inr d'"
    using parts t pd ap rc
    by (simp add: replaceTextNodeWithBreaks_def Let_def parent_of_nth createDocumentFragment_def
        createNode_def parts_def [symmetric] f_def [symmetric] d1_def [symmetric])
  text \<open>The nodes of the result.\<close>
  have len': "length d' = length d2" by (simp add: d'_def)
  have newge: "\<forall>r\<in>set new. Suc (length d) \<le> r"
    using new(1) len by simp
  have tn: "t \<notin> set new" "p \<notin> set new" "f \<notin> set new"
    using newge t(1) pd by (auto simp: f_def)
  have at_t: "d' ! t = (d ! t)\<lparr>parentNode := None\<rparr>"
    using t pd len tn old [OF t(1)]
    by (simp add: d'_def nth_update_node nth_set_parent f_def)
  have at_p: "d' ! p = (d ! p)\<lparr>childNodes := replace_in t new (childNodes (d ! p))\<rparr>"
    using t pd len tn old [OF pd]
    by (simp add: d'_def nth_update_node nth_set_parent f_def)
  have at_old: "d' ! r = d ! r" if "r < length d" "r \<noteq> t" "r \<noteq> p" for r
  proof -
    from that newge have "r \<notin> set new" by auto
    with that len old [OF that(1)] show ?thesis
      by (simp add: d'_def nth_update_node nth_set_parent f_def)
  qed
  have at_new: "d' ! r = (d2 ! r)\<lparr>parentNode := Some p\<rparr>" if "r \<in> set new" for r
    using that new(1,2) [OF that] t(1) pd len
    by (simp add: d'_def nth_update_node nth_set_parent f_def)
  have at_other: "d' ! r = d2 ! r" if "length d1 \<le> r" "r \<notin> set new" for r
    using that t(1) pd len
    by (simp add: d'_def nth_update_node nth_set_parent f_def)
  have at_f: "parentNode (d' ! f) = None"
    using tn t(1) pd len frag
    by (simp add: d'_def nth_update_node nth_set_parent f_def)
  have sp: "spliced t p d d' new"
    unfolding spliced_def
  proof (intro conjI allI impI ballI)
    show "length d \<le> length d'" using len len' by simp
    show "d' ! t = (d ! t)\<lparr>parentNode := None\<rparr>" by fact
    show "d' ! p = (d ! p)\<lparr>childNodes := replace_in t new (childNodes (d ! p))\<rparr>" by fact
  next
    fix r assume "r < length d"
    then show "r = t \<or> r = p \<or> d' ! r = d ! r" using at_old by blast
  next
    fix r assume r: "r \<in> set new"
    show "length d \<le> r" using new(1) [OF r] len by simp
    show "r < length d'" using new(2) [OF r] len' by simp
    show "parentNode (d' ! r) = Some p" using at_new [OF r] by simp
  next
    fix r c assume r: "r \<in> set new" and "c \<in> set (childNodes (d' ! r))"
    then have c: "c \<in> set (childNodes (d2 ! r))" using at_new [OF r] by simp
    show "length d \<le> c" using newc(1) [OF r c] len by simp
    show "c < length d'" using newc(2) [OF r c] len' by simp
  qed
  have cl': "closed d'"
  proof (rule closedI)
    fix r q assume r: "r < length d'" and q: "parentNode (d' ! r) = Some q"
    consider (t) "r = t" | (p) "r = p" | (old) "r < length d" "r \<noteq> t" "r \<noteq> p"
      | (f) "r = f" | (new) "r \<in> set new" | (other) "length d1 \<le> r" "r \<notin> set new"
      unfolding f_def len by atomize_elim auto
    then show "q < length d'"
    proof cases
      case t with q at_t show ?thesis by simp
    next
      case p
      with q at_p have "parentNode (d ! p) = Some q" by simp
      from closed_nth [OF cl pd this] len len' show ?thesis by simp
    next
      case old
      with q at_old [OF old] have "parentNode (d ! r) = Some q" by simp
      from closed_nth [OF cl old(1) this] len len' show ?thesis by simp
    next
      case f with q at_f show ?thesis by simp
    next
      case new
      with q at_new [OF new] have "q = p" by simp
      with pd len len' show ?thesis by simp
    next
      case other
      with q at_other [OF other] have "parentNode (d2 ! r) = Some q" by simp
      from cl2 [OF other(1) _ this] r len' show ?thesis by simp
    qed
  qed
  have "map (item_of s d') new = map (item_of s d2) new"
  proof (rule map_cong [OF refl])
    fix r assume r: "r \<in> set new"
    show "item_of s d' r = item_of s d2 r"
    proof (rule item_of_cong)
      show "r < length d2" using new(2) [OF r] .
      show "r < length d'" using new(2) [OF r] len' by simp
      show "kind (d' ! r) = kind (d2 ! r)" "childNodes (d' ! r) = childNodes (d2 ! r)"
        using at_new [OF r] by simp_all
      fix c assume c: "c \<in> set (childNodes (d2 ! r))"
      from at_other [OF newc(1) [OF r c] notnew [OF r c]] newc(2) [OF r c] len'
      show "c < length d2 \<and> c < length d' \<and> d' ! c = d2 ! c" by simp
    qed
  qed
  with items have "map (item_of s d') new = items_of_parts (length parts) parts 0" by simp
  with res sp cl' show ?thesis unfolding parts_def by blast
qed

section \<open>The loop over the collected text nodes\<close>

lemma replace_in_notin: "t \<notin> set cs \<Longrightarrow> replace_in t new cs = cs"
  by (induction cs) auto

lemma replace_in_append_notin: "t \<notin> set cs \<Longrightarrow> replace_in t new (cs @ es) = cs @ replace_in t new es"
  by (induction cs) auto

lemma replace_in_block:
  "t \<notin> set mid \<Longrightarrow> \<exists>pre' post'. replace_in t new (pre @ mid @ post) = pre' @ mid @ post'"
proof (induction pre)
  case Nil
  then show ?case using replace_in_append_notin [of t mid new post] by (metis append_Nil)
next
  case (Cons c cs)
  show ?case
  proof (cases "c = t")
    case True
    have "replace_in t new ((c # cs) @ mid @ post) = (new @ cs) @ mid @ post"
      using True by simp
    then show ?thesis by blast
  next
    case False
    from Cons.IH [OF Cons.prems] obtain pre' post' where
      "replace_in t new (cs @ mid @ post) = pre' @ mid @ post'" by blast
    with False have "replace_in t new ((c # cs) @ mid @ post) = (c # pre') @ mid @ post'"
      by simp
    then show ?thesis by blast
  qed
qed

lemma replace_in_mem:
  "t \<in> set cs \<Longrightarrow> \<exists>pre post. cs = pre @ t # post \<and> t \<notin> set pre \<and>
     replace_in t new cs = pre @ new @ post"
proof (induction cs)
  case Nil
  then show ?case by simp
next
  case (Cons c cs)
  show ?case
  proof (cases "c = t")
    case True
    then have "c # cs = [] @ t # cs \<and> t \<notin> set [] \<and> replace_in t new (c # cs) = [] @ new @ cs"
      by simp
    then show ?thesis by blast
  next
    case False
    with Cons obtain pre post where "cs = pre @ t # post" "t \<notin> set pre"
      "replace_in t new cs = pre @ new @ post" by auto
    with False have "c # cs = (c # pre) @ t # post \<and> t \<notin> set (c # pre) \<and>
        replace_in t new (c # cs) = (c # pre) @ new @ post" by simp
    then show ?thesis by blast
  qed
qed

lemma set_replace_in: "c \<in> set cs \<Longrightarrow> c \<noteq> t \<Longrightarrow> c \<in> set (replace_in t new cs)"
  by (induction cs) auto

lemma string_includes_Nil [simp]: "string_includes text []"
  by (simp add: string_includes_def stringIndexOf_def)

lemma replace_textNode_skip:
  assumes "leaf_ok d t" "\<not> is_replaced s d t"
  shows "replace_textNode s t d = Inr d"
proof -
  from assms(1) obtain content where t: "t < length d" "kind (d ! t) = Text content"
    by (auto simp: leaf_ok_def split: node_kind.splits)
  then have tc: "textContent d t = Some content" by (simp add: textContent_def lookup_def)
  from assms(2) t consider "\<not> string_includes content (triggerWord s)"
    | "length (split content (triggerWord s)) \<le> 1" | "parentNode (d ! t) = None"
    by (auto simp: is_replaced_def)
  then show ?thesis
  proof cases
    case 1 with tc show ?thesis by (simp add: replace_textNode_def)
  next
    case 2 with tc show ?thesis by (simp add: replace_textNode_def replaceTextNodeWithBreaks_def)
  next
    case 3 with tc t show ?thesis
      by (simp add: replace_textNode_def replaceTextNodeWithBreaks_def Let_def parent_of_nth)
  qed
qed

lemma replace_textNode_spliced:
  assumes cl: "closed d" and ok: "leaf_ok d t" and rep: "is_replaced s d t"
    and k: "kind (d ! t) = Text text" and p: "parentNode (d ! t) = Some p"
  shows "\<exists>d' new. replace_textNode s t d = Inr d' \<and> spliced t p d d' new \<and> closed d' \<and>
           map (item_of s d') new =
             items_of_parts (length (split text (triggerWord s))) (split text (triggerWord s)) 0"
proof -
  from ok have t: "t < length d" by (simp add: leaf_ok_def)
  from ok p have pc: "is_container (kind (d ! p))" by (simp add: leaf_ok_def)
  with k have tp: "t \<noteq> p" by (auto simp: is_container_def)
  from rep k have inc: "string_includes text (triggerWord s)"
    and len: "2 \<le> length (split text (triggerWord s))" by (simp_all add: is_replaced_def)
  from t k have tc: "textContent d t = Some text" by (simp add: textContent_def lookup_def)
  from replaceTextNodeWithBreaks_spliced [OF cl t p tp pc len]
  show ?thesis using tc inc by (simp add: replace_textNode_def)
qed

lemma processed_refl: "closed d \<Longrightarrow> processed s {} d d block"
  by (simp add: processed_def)

lemma count_list_1_split:
  "count_list cs t = 1 \<Longrightarrow> \<exists>pre post. cs = pre @ t # post \<and> t \<notin> set pre \<and> t \<notin> set post"
proof (induction cs)
  case Nil
  then show ?case by simp
next
  case (Cons c cs)
  show ?case
  proof (cases "c = t")
    case True
    with Cons.prems have "count_list cs t = 0" by simp
    then have "t \<notin> set cs" by (simp add: count_list_0_iff)
    with True have "c # cs = [] @ t # cs \<and> t \<notin> set [] \<and> t \<notin> set cs" by simp
    then show ?thesis by blast
  next
    case False
    with Cons.prems have "count_list cs t = 1" by simp
    from Cons.IH [OF this] obtain pre post where "cs = pre @ t # post" "t \<notin> set pre" "t \<notin> set post"
      by blast
    with False have "c # cs = (c # pre) @ t # post \<and> t \<notin> set (c # pre) \<and> t \<notin> set post" by simp
    then show ?thesis by blast
  qed
qed

lemma replace_in_split: "t \<notin> set pre \<Longrightarrow> replace_in t new (pre @ t # post) = pre @ new @ post"
  by (induction pre) auto

lemma spliced_old:
  assumes "spliced t p d d' new" "r < length d" "t \<noteq> p"
  shows "kind (d' ! r) = kind (d ! r)"
    "parentNode (d' ! r) = (if r = t then None else parentNode (d ! r))"
    "childNodes (d' ! r) = (if r = p then replace_in t new (childNodes (d ! p)) else childNodes (d ! r))"
proof -
  from assms(1) have a: "d' ! t = (d ! t)\<lparr>parentNode := None\<rparr>"
    "d' ! p = (d ! p)\<lparr>childNodes := replace_in t new (childNodes (d ! p))\<rparr>"
    by (simp_all add: spliced_def)
  from assms(1,2) have b: "r = t \<or> r = p \<or> d' ! r = d ! r" by (simp add: spliced_def)
  show "kind (d' ! r) = kind (d ! r)" using a b by auto
  show "parentNode (d' ! r) = (if r = t then None else parentNode (d ! r))"
    using a b assms(3) by auto
  show "childNodes (d' ! r) = (if r = p then replace_in t new (childNodes (d ! p)) else childNodes (d ! r))"
    using a b assms(3) by auto
qed

lemma spliced_new:
  assumes "spliced t p d d' new" "r \<in> set new"
  shows "length d \<le> r" "r < length d'" "\<And>c. c \<in> set (childNodes (d' ! r)) \<Longrightarrow> length d \<le> c \<and> c < length d'"
  using assms by (auto simp: spliced_def)

lemma spliced_length: "spliced t p d d' new \<Longrightarrow> length d \<le> length d'"
  by (simp add: spliced_def)

lemma processed_step:
  assumes sp: "spliced t p d d1 new" and tp: "t \<noteq> p" and t: "t < length d" and p: "p < length d"
    and cl: "closed d" and par: "parentNode (d ! t) = Some p"
    and tin: "t \<in> set (childNodes (d ! p))"
    and items: "\<And>x. kind (d ! t) = Text x \<Longrightarrow> map (item_of s d1) new =
           items_of_parts (length (split x (triggerWord s))) (split x (triggerWord s)) 0"
    and T1: "\<And>c. c \<in> T1 \<Longrightarrow> c < length d \<and> c \<noteq> t"
    and pr: "processed s T1 d1 d' block1"
  shows "processed s (insert t T1) d d' (block1(t := new))"
proof -
  note old = spliced_old [OF sp _ tp]
  note new = spliced_new [OF sp]
  have len1: "length d \<le> length d1" by (rule spliced_length [OF sp])
  from pr have len2: "length d1 \<le> length d'" and cl': "closed d'"
    and k2: "\<And>r. r < length d1 \<Longrightarrow> kind (d' ! r) = kind (d1 ! r)"
    and p2: "\<And>r. r < length d1 \<Longrightarrow> parentNode (d' ! r) = (if r \<in> T1 then None else parentNode (d1 ! r))"
    and c2: "\<And>q. q < length d1 \<Longrightarrow> (\<exists>t\<in>T1. parentNode (d1 ! t) = Some q) \<or> childNodes (d' ! q) = childNodes (d1 ! q)"
    and e2: "\<And>q. q < length d1 \<Longrightarrow>
         (\<forall>c\<in>T1. c \<in> set (childNodes (d1 ! q)) \<longrightarrow>
                 parentNode (d1 ! c) = Some q \<and> count_list (childNodes (d1 ! q)) c = 1) \<Longrightarrow>
         childNodes (d' ! q) =
           concat (map (\<lambda>c. if c \<in> T1 then block1 c else [c]) (childNodes (d1 ! q)))"
    and b2: "\<And>t. t \<in> T1 \<Longrightarrow> (\<forall>r\<in>set (block1 t). length d1 \<le> r) \<and>
         (\<forall>x. kind (d1 ! t) = Text x \<longrightarrow>
            map (item_of s d') (block1 t) =
              items_of_parts (length (split x (triggerWord s))) (split x (triggerWord s)) 0)"
    unfolding processed_def by blast+
  have T1par: "parentNode (d1 ! c) = parentNode (d ! c)" if "c \<in> T1" for c
    using old(2) [of c] T1 [OF that] by simp
  have T1range: "q < length d" if "c \<in> T1" "parentNode (d ! c) = Some q" for c q
    using closed_nth [OF cl _ that(2)] T1 [OF that(1)] by simp
  have notT1: "r \<notin> T1" if "length d \<le> r" for r
    using T1 [of r] that by auto
  have newge: "\<forall>r\<in>set new. length d \<le> r \<and> r \<notin> T1"
    using new(1) notT1 by blast
  text \<open>A node created by the step is not touched afterwards.\<close>
  have fresh_kept: "d' ! r = d1 ! r" if r: "length d \<le> r" "r < length d1" for r
  proof (rule dom_node.equality)
    show "kind (d' ! r) = kind (d1 ! r)" by (rule k2 [OF r(2)])
    show "parentNode (d' ! r) = parentNode (d1 ! r)" using p2 [OF r(2)] notT1 [OF r(1)] by simp
    have "\<not> (\<exists>t\<in>T1. parentNode (d1 ! t) = Some r)"
      using T1par T1range r(1) by fastforce
    with c2 [OF r(2)] show "childNodes (d' ! r) = childNodes (d1 ! r)" by simp
  qed simp
  have A: "length d \<le> length d'" using len1 len2 by simp
  have B: "\<forall>r<length d. kind (d' ! r) = kind (d ! r)"
    using k2 old(1) len1 by simp
  have C: "\<forall>r<length d. parentNode (d' ! r) = (if r \<in> insert t T1 then None else parentNode (d ! r))"
    using p2 old(2) len1 by simp
  have D: "\<forall>q<length d. (\<exists>t\<in>insert t T1. parentNode (d ! t) = Some q) \<or> childNodes (d' ! q) = childNodes (d ! q)"
  proof (intro allI impI)
    fix q assume q: "q < length d"
    show "(\<exists>t\<in>insert t T1. parentNode (d ! t) = Some q) \<or> childNodes (d' ! q) = childNodes (d ! q)"
    proof (cases "q = p")
      case True
      with par show ?thesis by simp
    next
      case False
      from q len1 have "q < length d1" by simp
      from c2 [OF this] show ?thesis
      proof
        assume "\<exists>t\<in>T1. parentNode (d1 ! t) = Some q"
        with T1par show ?thesis by auto
      next
        assume "childNodes (d' ! q) = childNodes (d1 ! q)"
        with old(3) [OF q] False show ?thesis by simp
      qed
    qed
  qed
  have E: "childNodes (d' ! q) =
           concat (map (\<lambda>c. if c \<in> insert t T1 then (block1(t := new)) c else [c]) (childNodes (d ! q)))"
    if q: "q < length d" and once: "\<forall>c\<in>insert t T1. c \<in> set (childNodes (d ! q)) \<longrightarrow>
                 parentNode (d ! c) = Some q \<and> count_list (childNodes (d ! q)) c = 1" for q
  proof (cases "q = p")
    case False
    have tq: "t \<notin> set (childNodes (d ! q))" using once par False by auto
    from q len1 have q1: "q < length d1" by simp
    have same: "childNodes (d1 ! q) = childNodes (d ! q)" using old(3) [OF q] False by simp
    have "childNodes (d' ! q) =
           concat (map (\<lambda>c. if c \<in> T1 then block1 c else [c]) (childNodes (d1 ! q)))"
    proof (rule e2 [OF q1], intro ballI impI)
      fix c assume c: "c \<in> T1" "c \<in> set (childNodes (d1 ! q))"
      with once same have "parentNode (d ! c) = Some q \<and> count_list (childNodes (d ! q)) c = 1" by simp
      with T1par [OF c(1)] same
      show "parentNode (d1 ! c) = Some q \<and> count_list (childNodes (d1 ! q)) c = 1" by simp
    qed
    also have "\<dots> = concat (map (\<lambda>c. if c \<in> insert t T1 then (block1(t := new)) c else [c]) (childNodes (d ! q)))"
      unfolding same using tq by (intro arg_cong [where f = concat] map_cong refl) auto
    finally show ?thesis .
  next
    case True
    from once tin True have "count_list (childNodes (d ! p)) t = 1" by simp
    from count_list_1_split [OF this] obtain pre post where
      cs: "childNodes (d ! p) = pre @ t # post" and tpre: "t \<notin> set pre" and tpost: "t \<notin> set post"
      by blast
    have cs1: "childNodes (d1 ! p) = pre @ new @ post"
      using old(3) [OF p] cs replace_in_split [OF tpre] by simp
    from p len1 have p1: "p < length d1" by simp
    have "childNodes (d' ! p) =
           concat (map (\<lambda>c. if c \<in> T1 then block1 c else [c]) (childNodes (d1 ! p)))"
    proof (rule e2 [OF p1], intro ballI impI)
      fix c assume c: "c \<in> T1" "c \<in> set (childNodes (d1 ! p))"
      from T1 [OF c(1)] newge have cn: "c \<notin> set new" "c \<noteq> t" by auto
      with c(2) cs1 cs have "c \<in> set (childNodes (d ! p))" by auto
      with once c(1) True have "parentNode (d ! c) = Some p" "count_list (childNodes (d ! p)) c = 1"
        by simp_all
      moreover have "count_list (childNodes (d1 ! p)) c = count_list (childNodes (d ! p)) c"
        using cn by (simp add: cs cs1 count_list_0_iff)
      ultimately show "parentNode (d1 ! c) = Some p \<and> count_list (childNodes (d1 ! p)) c = 1"
        using T1par [OF c(1)] by simp
    qed
    also have "\<dots> = concat (map (\<lambda>c. if c \<in> T1 then block1 c else [c]) pre) @
        concat (map (\<lambda>c. if c \<in> T1 then block1 c else [c]) new) @
        concat (map (\<lambda>c. if c \<in> T1 then block1 c else [c]) post)"
      by (simp add: cs1)
    also have "concat (map (\<lambda>c. if c \<in> T1 then block1 c else [c]) new) = new"
    proof -
      have "map (\<lambda>c. if c \<in> T1 then block1 c else [c]) new = map (\<lambda>c. [c]) new"
        using newge by (intro map_cong refl) auto
      then have "concat (map (\<lambda>c. if c \<in> T1 then block1 c else [c]) new) = concat (map (\<lambda>c. [c]) new)"
        by (rule arg_cong)
      also have "\<dots> = new" by (induction new) simp_all
      finally show ?thesis .
    qed
    also have "map (\<lambda>c. if c \<in> T1 then block1 c else [c]) pre =
        map (\<lambda>c. if c \<in> insert t T1 then (block1(t := new)) c else [c]) pre"
      using tpre by (intro map_cong refl) auto
    also have "map (\<lambda>c. if c \<in> T1 then block1 c else [c]) post =
        map (\<lambda>c. if c \<in> insert t T1 then (block1(t := new)) c else [c]) post"
      using tpost by (intro map_cong refl) auto
    finally show ?thesis unfolding True cs by simp
  qed
  have F: "(\<forall>r\<in>set ((block1(t := new)) u). length d \<le> r) \<and>
         (\<forall>x. kind (d ! u) = Text x \<longrightarrow>
            map (item_of s d') ((block1(t := new)) u) =
              items_of_parts (length (split x (triggerWord s))) (split x (triggerWord s)) 0)"
    if u: "u \<in> insert t T1" for u
  proof (cases "u = t")
    case True
    have eq: "map (item_of s d') new = map (item_of s d1) new"
    proof (rule map_cong [OF refl])
      fix r assume r: "r \<in> set new"
      show "item_of s d' r = item_of s d1 r"
      proof (rule item_of_cong)
        show "r < length d1" by (rule new(2) [OF r])
        then show "r < length d'" using len2 by simp
        from fresh_kept [OF new(1) [OF r] new(2) [OF r]]
        show "kind (d' ! r) = kind (d1 ! r)" "childNodes (d' ! r) = childNodes (d1 ! r)" by simp_all
        fix c assume "c \<in> set (childNodes (d1 ! r))"
        from new(3) [OF r this] fresh_kept [of c] len2
        show "c < length d1 \<and> c < length d' \<and> d' ! c = d1 ! c" by simp
      qed
    qed
    show ?thesis
      unfolding True
    proof (intro conjI allI impI)
      show "\<forall>r\<in>set ((block1(t := new)) t). length d \<le> r" using newge by simp
      fix x assume "kind (d ! t) = Text x"
      from items [OF this] eq
      show "map (item_of s d') ((block1(t := new)) t) =
              items_of_parts (length (split x (triggerWord s))) (split x (triggerWord s)) 0"
        by simp
    qed
  next
    case False
    with u have u1: "u \<in> T1" by simp
    from T1 [OF u1] have "kind (d1 ! u) = kind (d ! u)" using old(1) by simp
    with b2 [OF u1] False len1 show ?thesis by auto
  qed
  show ?thesis
    unfolding processed_def
    using A cl' B C D E F by (intro conjI allI impI ballI) blast+
qed

lemma is_replaced_cong:
  "kind (d' ! t) = kind (d ! t) \<Longrightarrow> parentNode (d' ! t) = parentNode (d ! t) \<Longrightarrow>
   is_replaced s d' t = is_replaced s d t"
  by (simp add: is_replaced_def split: node_kind.split)

lemma forEach_textNode_processed:
  assumes "closed d" "distinct L" "\<forall>t\<in>set L. leaf_ok d t"
  shows "\<exists>d' block. forEach_textNode s L d = Inr d' \<and> processed s (replaced_nodes s d L) d d' block"
  using assms
proof (induction L arbitrary: d)
  case Nil
  then show ?case using processed_refl [of d s] by (auto simp: replaced_nodes_def)
next
  case (Cons t rest)
  from Cons.prems have cl: "closed d" and ok: "leaf_ok d t" and trest: "t \<notin> set rest"
    and drest: "distinct rest" and okrest: "\<forall>u\<in>set rest. leaf_ok d u" by simp_all
  show ?case
  proof (cases "is_replaced s d t")
    case False
    from Cons.IH [OF cl drest okrest] obtain d' block where
      "forEach_textNode s rest d = Inr d'" "processed s (replaced_nodes s d rest) d d' block" by blast
    moreover have "replaced_nodes s d (t # rest) = replaced_nodes s d rest"
      using False by (auto simp: replaced_nodes_def)
    ultimately show ?thesis using replace_textNode_skip [OF ok False] by auto
  next
    case True
    then obtain x p where k: "kind (d ! t) = Text x" and par: "parentNode (d ! t) = Some p"
      by (auto simp: is_replaced_def split: node_kind.splits)
    from replace_textNode_spliced [OF cl ok True k par] obtain d1 new where
      step: "replace_textNode s t d = Inr d1" and sp: "spliced t p d d1 new" and cl1: "closed d1"
      and items: "map (item_of s d1) new =
             items_of_parts (length (split x (triggerWord s))) (split x (triggerWord s)) 0"
      by blast
    from ok have t: "t < length d" by (simp add: leaf_ok_def)
    from closed_nth [OF cl t par] have p: "p < length d" .
    from ok par have pc: "is_container (kind (d ! p))" and tin: "t \<in> set (childNodes (d ! p))"
      by (simp_all add: leaf_ok_def)
    from pc k have tp: "t \<noteq> p" by (auto simp: is_container_def)
    note old = spliced_old [OF sp _ tp]
    have len1: "length d \<le> length d1" by (rule spliced_length [OF sp])
    have ok1: "\<forall>u\<in>set rest. leaf_ok d1 u"
    proof
      fix u assume u: "u \<in> set rest"
      with okrest have oku: "leaf_ok d u" by simp
      then have ul: "u < length d" by (simp add: leaf_ok_def)
      from u trest have ut: "u \<noteq> t" by auto
      have ku: "kind (d1 ! u) = kind (d ! u)" and pu: "parentNode (d1 ! u) = parentNode (d ! u)"
        using old(1,2) [OF ul] ut by simp_all
      show "leaf_ok d1 u"
      proof (cases "parentNode (d ! u)")
        case None
        with oku ku pu ul len1 show ?thesis by (simp add: leaf_ok_def)
      next
        case (Some q)
        from closed_nth [OF cl ul Some] have q: "q < length d" .
        from oku Some have qc: "is_container (kind (d ! q))" and uin: "u \<in> set (childNodes (d ! q))"
          by (simp_all add: leaf_ok_def)
        have "u \<in> set (childNodes (d1 ! q))"
          using old(3) [OF q] uin ut set_replace_in [of u "childNodes (d ! p)" t new] by auto
        with oku ku pu ul len1 Some qc old(1) [OF q] show ?thesis by (simp add: leaf_ok_def)
      qed
    qed
    have same: "replaced_nodes s d1 rest = replaced_nodes s d rest"
    proof -
      have "is_replaced s d1 u = is_replaced s d u" if "u \<in> set rest" for u
      proof (rule is_replaced_cong)
        from that okrest have ul: "u < length d" by (simp add: leaf_ok_def)
        from that trest have ut: "u \<noteq> t" by auto
        show "kind (d1 ! u) = kind (d ! u)" "parentNode (d1 ! u) = parentNode (d ! u)"
          using old(1,2) [OF ul] ut by simp_all
      qed
      then show ?thesis by (auto simp: replaced_nodes_def)
    qed
    from Cons.IH [OF cl1 drest ok1] same obtain d' block1 where
      run: "forEach_textNode s rest d1 = Inr d'"
      and pr: "processed s (replaced_nodes s d rest) d1 d' block1" by auto
    have "processed s (insert t (replaced_nodes s d rest)) d d' (block1(t := new))"
    proof (rule processed_step [OF sp tp t p cl par tin _ _ pr])
      fix y assume "kind (d ! t) = Text y"
      with k items show "map (item_of s d1) new =
           items_of_parts (length (split y (triggerWord s))) (split y (triggerWord s)) 0" by simp
    next
      fix c assume "c \<in> replaced_nodes s d rest"
      then have "c \<in> set rest" by (simp add: replaced_nodes_def)
      with okrest trest show "c < length d \<and> c \<noteq> t" by (auto simp: leaf_ok_def)
    qed
    moreover have "replaced_nodes s d (t # rest) = insert t (replaced_nodes s d rest)"
      using True by (auto simp: replaced_nodes_def)
    ultimately show ?thesis using step run by auto
  qed
qed

section \<open>The walk over the rendered tree\<close>

lemma document_order_forest:
  "(\<And>t. t \<in> set ts \<Longrightarrow> \<exists>p. tree_in d p t) \<Longrightarrow>
   document_order d (map root ts) = Some (concat (map nodes_of ts))"
proof (induction "size_list size ts" arbitrary: ts rule: less_induct)
  case less
  show ?case
  proof (cases ts)
    case Nil
    then show ?thesis by (simp add: document_order.simps)
  next
    case (Cons t rest)
    obtain r cs where t: "t = Node r cs" by (cases t)
    from less.prems [of t] Cons t obtain p where "tree_in d p (Node r cs)" by auto
    then have r: "r < length d" "childNodes (d ! r) = map root cs"
      and cs: "\<And>c. c \<in> set cs \<Longrightarrow> tree_in d r c" by simp_all
    have "document_order d (map root (cs @ rest)) = Some (concat (map nodes_of (cs @ rest)))"
    proof (rule less.hyps)
      show "size_list size (cs @ rest) < size_list size ts" using Cons t by simp
      fix u assume "u \<in> set (cs @ rest)"
      then show "\<exists>p. tree_in d p u" using cs less.prems Cons by auto
    qed
    then show ?thesis
      using Cons t r by (subst document_order.simps) (simp add: children_def lookup_def)
  qed
qed

lemma root_in_nodes_of: "root t \<in> set (nodes_of t)"
  by (cases t) simp

lemma distinct_roots: "distinct (concat (map nodes_of ts)) \<Longrightarrow> distinct (map root ts)"
proof (induction ts)
  case Nil
  show ?case by simp
next
  case (Cons t ts)
  from Cons.prems have d: "distinct (concat (map nodes_of ts))"
    and disj: "set (nodes_of t) \<inter> set (concat (map nodes_of ts)) = {}" by simp_all
  have "root t \<notin> set (map root ts)"
  proof
    assume "root t \<in> set (map root ts)"
    then obtain u where "u \<in> set ts" "root u = root t" by auto
    with root_in_nodes_of [of u] have "root t \<in> set (concat (map nodes_of ts))" by auto
    with disj root_in_nodes_of [of t] show False by auto
  qed
  with Cons.IH [OF d] show ?case by simp
qed

text \<open>What holds of a node with a tree below it, and of the nodes of a tree below a node.\<close>

lemma tree_in_parent:
  "tree_in d p t \<Longrightarrow> distinct (nodes_of t) \<Longrightarrow> q \<in> set (nodes_of t) \<Longrightarrow>
   q < length d \<and> set (childNodes (d ! q)) \<subseteq> set (nodes_of t) \<and> distinct (childNodes (d ! q)) \<and>
   (\<forall>c\<in>set (childNodes (d ! q)). parentNode (d ! c) = Some q) \<and>
   (childNodes (d ! q) = [] \<or> is_container (kind (d ! q)))"
proof (induction t arbitrary: p)
  case (Node r cs)
  from Node.prems(1) have r: "r < length d" "childNodes (d ! r) = map root cs"
    "cs = [] \<or> is_container (kind (d ! r))"
    and sub: "\<And>c. c \<in> set cs \<Longrightarrow> tree_in d r c" by simp_all
  from Node.prems(2) have dist: "distinct (concat (map nodes_of cs))" by simp
  show ?case
  proof (cases "q = r")
    case True
    have "set (map root cs) \<subseteq> set (nodes_of (Node r cs))"
      using root_in_nodes_of by fastforce
    moreover have "\<forall>c\<in>set (map root cs). parentNode (d ! c) = Some r"
    proof
      fix c assume "c \<in> set (map root cs)"
      then obtain u where u: "u \<in> set cs" "c = root u" by auto
      from sub [OF u(1)] u(2) show "parentNode (d ! c) = Some r" by (cases u) simp
    qed
    ultimately show ?thesis using True r distinct_roots [OF dist] by simp
  next
    case False
    with Node.prems(3) obtain c where c: "c \<in> set cs" "q \<in> set (nodes_of c)" by auto
    from dist c(1) have "distinct (nodes_of c)"
      by (metis distinct_concat_iff imageI list.set_map)
    from Node.IH [OF c(1) sub [OF c(1)] this c(2)] c(1) show ?thesis by auto
  qed
qed

lemma tree_in_node:
  "tree_in d p t \<Longrightarrow> u \<in> set (nodes_of t) \<Longrightarrow>
   u < length d \<and> (\<exists>q. parentNode (d ! u) = Some q \<and> (q = p \<or> q \<in> set (nodes_of t)))"
proof (induction t arbitrary: p)
  case (Node r cs)
  show ?case
  proof (cases "u = r")
    case True
    with Node.prems(1) show ?thesis by simp
  next
    case False
    with Node.prems(2) obtain c where c: "c \<in> set cs" "u \<in> set (nodes_of c)" by auto
    from Node.prems(1) c(1) have "tree_in d r c" by simp
    from Node.IH [OF c(1) this c(2)] c(1) show ?thesis by auto
  qed
qed

lemma tree_in_child:
  "tree_in d p t \<Longrightarrow> root t \<in> set (childNodes (d ! p)) \<Longrightarrow> is_container (kind (d ! p)) \<Longrightarrow>
   u \<in> set (nodes_of t) \<Longrightarrow>
   \<exists>q. parentNode (d ! u) = Some q \<and> u \<in> set (childNodes (d ! q)) \<and> is_container (kind (d ! q))"
proof (induction t arbitrary: p)
  case (Node r cs)
  show ?case
  proof (cases "u = r")
    case True
    with Node.prems(1,2,3) show ?thesis by simp
  next
    case False
    with Node.prems(4) obtain c where c: "c \<in> set cs" "u \<in> set (nodes_of c)" by auto
    from Node.prems(1) c(1) have 1: "tree_in d r c" and 2: "childNodes (d ! r) = map root cs"
      and 3: "is_container (kind (d ! r))" by auto
    from 2 c(1) have "root c \<in> set (childNodes (d ! r))" by simp
    from Node.IH [OF c(1) 1 this 3 c(2)] show ?thesis .
  qed
qed

lemma subtree_node:
  assumes "subtree d element ts" "u \<in> set (concat (map nodes_of ts))"
  shows "u < length d"
    "\<exists>q. parentNode (d ! u) = Some q \<and> (q = element \<or> q \<in> set (concat (map nodes_of ts))) \<and>
         u \<in> set (childNodes (d ! q)) \<and> is_container (kind (d ! q))"
proof -
  from assms(2) obtain t where t: "t \<in> set ts" "u \<in> set (nodes_of t)" by auto
  from assms(1) t(1) have ti: "tree_in d element t" and cs: "childNodes (d ! element) = map root ts"
    and co: "is_container (kind (d ! element))" by (auto simp: subtree_def)
  from tree_in_node [OF ti t(2)] t(1) show "u < length d" by simp
  from cs t(1) have rt: "root t \<in> set (childNodes (d ! element))" by simp
  from tree_in_child [OF ti rt co t(2)] obtain q where
    q: "parentNode (d ! u) = Some q" "u \<in> set (childNodes (d ! q))" "is_container (kind (d ! q))"
    by blast
  from tree_in_node [OF ti t(2)] q(1) t(1)
  have "q = element \<or> q \<in> set (concat (map nodes_of ts))" by auto
  with q show "\<exists>q. parentNode (d ! u) = Some q \<and> (q = element \<or> q \<in> set (concat (map nodes_of ts))) \<and>
         u \<in> set (childNodes (d ! q)) \<and> is_container (kind (d ! q))" by blast
qed

lemma subtree_parent:
  assumes "subtree d element ts" "q = element \<or> q \<in> set (concat (map nodes_of ts))"
  shows "q < length d" "set (childNodes (d ! q)) \<subseteq> set (concat (map nodes_of ts))"
    "distinct (childNodes (d ! q))" "\<And>c. c \<in> set (childNodes (d ! q)) \<Longrightarrow> parentNode (d ! c) = Some q"
proof -
  from assms(1) have e: "element < length d" "childNodes (d ! element) = map root ts"
    and ti: "\<And>t. t \<in> set ts \<Longrightarrow> tree_in d element t"
    and dist: "distinct (concat (map nodes_of ts))" by (simp_all add: subtree_def)
  have "q < length d \<and> set (childNodes (d ! q)) \<subseteq> set (concat (map nodes_of ts)) \<and>
    distinct (childNodes (d ! q)) \<and> (\<forall>c\<in>set (childNodes (d ! q)). parentNode (d ! c) = Some q)"
  proof (cases "q \<in> set (concat (map nodes_of ts))")
    case True
    then obtain t where t: "t \<in> set ts" "q \<in> set (nodes_of t)" by auto
    from dist t(1) have "distinct (nodes_of t)"
      by (metis distinct_concat_iff imageI list.set_map)
    from tree_in_parent [OF ti [OF t(1)] this t(2)] t(1) show ?thesis by auto
  next
    case False
    with assms(2) have q: "q = element" by simp
    have "set (map root ts) \<subseteq> set (concat (map nodes_of ts))"
      using root_in_nodes_of by fastforce
    moreover have "\<forall>c\<in>set (map root ts). parentNode (d ! c) = Some element"
    proof
      fix c assume "c \<in> set (map root ts)"
      then obtain u where u: "u \<in> set ts" "c = root u" by auto
      from ti [OF u(1)] u(2) show "parentNode (d ! c) = Some element" by (cases u) simp
    qed
    ultimately show ?thesis using q e distinct_roots [OF dist] by simp
  qed
  then show "q < length d" "set (childNodes (d ! q)) \<subseteq> set (concat (map nodes_of ts))"
    "distinct (childNodes (d ! q))" "\<And>c. c \<in> set (childNodes (d ! q)) \<Longrightarrow> parentNode (d ! c) = Some q"
    by auto
qed

text \<open>The text nodes the first loop collects.\<close>

lemma collect_textNodes_subtree:
  assumes "subtree d element ts"
  shows "collect_textNodes s d element =
     Some (filter (\<lambda>t. case kind (d ! t) of Text x \<Rightarrow> string_includes x (triggerWord s) | _ \<Rightarrow> False)
             (concat (map nodes_of ts)))"
proof -
  from assms have e: "element < length d" "childNodes (d ! element) = map root ts"
    and ti: "\<And>t. t \<in> set ts \<Longrightarrow> \<exists>p. tree_in d p t" by (auto simp: subtree_def)
  have "document_order d (children d element) = Some (concat (map nodes_of ts))"
    using document_order_forest [OF ti] e by (simp add: children_def lookup_def)
  moreover have "filter (\<lambda>node. case textContent d node of None \<Rightarrow> False
                       | Some t \<Rightarrow> string_includes t (triggerWord s))
       (filter (is_text d) (concat (map nodes_of ts))) =
     filter (\<lambda>t. case kind (d ! t) of Text x \<Rightarrow> string_includes x (triggerWord s) | _ \<Rightarrow> False)
             (concat (map nodes_of ts))"
    unfolding filter_filter
  proof (rule filter_cong [OF refl])
    fix u assume "u \<in> set (concat (map nodes_of ts))"
    from subtree_node(1) [OF assms this]
    show "(is_text d u \<and> (case textContent d u of None \<Rightarrow> False
                       | Some t \<Rightarrow> string_includes t (triggerWord s))) =
       (case kind (d ! u) of Text x \<Rightarrow> string_includes x (triggerWord s) | _ \<Rightarrow> False)"
      by (simp add: is_text_def textContent_def lookup_def split: node_kind.split)
  qed
  ultimately show ?thesis by (simp add: collect_textNodes_def walker_nodes_def)
qed

lemma distinct_count_list: "distinct cs \<Longrightarrow> c \<in> set cs \<Longrightarrow> count_list cs c = 1"
  by (induction cs) (auto simp: count_list_0_iff)

lemma processed_kind: "processed s T d d' block \<Longrightarrow> r < length d \<Longrightarrow> kind (d' ! r) = kind (d ! r)"
  by (simp add: processed_def)

lemma processed_parent:
  "processed s T d d' block \<Longrightarrow> r < length d \<Longrightarrow>
   parentNode (d' ! r) = (if r \<in> T then None else parentNode (d ! r))"
  by (simp add: processed_def)

lemma processed_children:
  assumes "processed s T d d' block" "q < length d" "\<And>t. t \<in> T \<Longrightarrow> parentNode (d ! t) \<noteq> Some q"
  shows "childNodes (d' ! q) = childNodes (d ! q)"
proof -
  from assms(1,2) have "(\<exists>t\<in>T. parentNode (d ! t) = Some q) \<or> childNodes (d' ! q) = childNodes (d ! q)"
    by (simp add: processed_def)
  with assms(3) show ?thesis by blast
qed

lemma processed_node:
  assumes "processed s T d d' block" "r < length d" "r \<notin> T"
    "\<And>t. t \<in> T \<Longrightarrow> parentNode (d ! t) \<noteq> Some r"
  shows "d' ! r = d ! r"
proof (rule dom_node.equality)
  show "kind (d' ! r) = kind (d ! r)" by (rule processed_kind [OF assms(1,2)])
  show "parentNode (d' ! r) = parentNode (d ! r)"
    using processed_parent [OF assms(1,2)] assms(3) by simp
  show "childNodes (d' ! r) = childNodes (d ! r)"
    by (rule processed_children [OF assms(1,2,4)])
qed simp

lemma processed_items:
  assumes "processed s T d d' block" "t \<in> T" "kind (d ! t) = Text x"
  shows "map (item_of s d') (block t) =
     items_of_parts (length (split x (triggerWord s))) (split x (triggerWord s)) 0"
proof -
  from assms(1,2) have "\<forall>x. kind (d ! t) = Text x \<longrightarrow>
            map (item_of s d') (block t) =
              items_of_parts (length (split x (triggerWord s))) (split x (triggerWord s)) 0"
    unfolding processed_def by blast
  with assms(3) show ?thesis by blast
qed

lemma processed_fresh:
  assumes "processed s T d d' block" "t \<in> T" "r \<in> set (block t)"
  shows "length d \<le> r"
proof -
  from assms(1,2) have "\<forall>r\<in>set (block t). length d \<le> r"
    unfolding processed_def by blast
  with assms(3) show ?thesis by blast
qed

text \<open>
  The result of \<open>processLineBreaks\<close> on a closed store with a tree below the element: the
  walk ends, no exception is raised, and the second loop has replaced the text nodes of the
  tree that are to be replaced.
\<close>

lemma processLineBreaks_processed:
  assumes cl: "closed d" and st: "subtree d element ts"
  shows "\<exists>d' block. processLineBreaks s element d = Some (Inr d') \<and>
     processed s {t \<in> set (concat (map nodes_of ts)). is_replaced s d t} d d' block \<and>
     (\<forall>q. q = element \<or> q \<in> set (concat (map nodes_of ts)) \<longrightarrow>
        childNodes (d' ! q) =
          concat (map (\<lambda>c. if is_replaced s d c then block c else [c]) (childNodes (d ! q))))"
proof -
  define forest where "forest = concat (map nodes_of ts)"
  define L where "L = filter (\<lambda>t. case kind (d ! t) of Text x \<Rightarrow> string_includes x (triggerWord s) | _ \<Rightarrow> False) forest"
  define T where "T = replaced_nodes s d L"
  have col: "collect_textNodes s d element = Some L"
    unfolding L_def forest_def by (rule collect_textNodes_subtree [OF st])
  from st have "distinct forest" by (simp add: subtree_def forest_def)
  then have dL: "distinct L" by (simp add: L_def)
  have okL: "\<forall>t\<in>set L. leaf_ok d t"
  proof
    fix t assume "t \<in> set L"
    then have t: "t \<in> set (concat (map nodes_of ts))" and k: "\<exists>x. kind (d ! t) = Text x"
      by (auto simp: L_def forest_def split: node_kind.splits)
    from subtree_node [OF st t] k show "leaf_ok d t" by (auto simp: leaf_ok_def)
  qed
  have T: "T = {t \<in> set forest. is_replaced s d t}"
    unfolding T_def replaced_nodes_def L_def
    by (auto simp: is_replaced_def split: node_kind.splits)
  from forEach_textNode_processed [OF cl dL okL, of s] obtain d' block where
    run: "forEach_textNode s L d = Inr d'" and pr: "processed s T d d' block"
    unfolding T_def by blast
  from pr have e: "\<And>q. q < length d \<Longrightarrow>
         (\<forall>c\<in>T. c \<in> set (childNodes (d ! q)) \<longrightarrow>
                 parentNode (d ! c) = Some q \<and> count_list (childNodes (d ! q)) c = 1) \<Longrightarrow>
         childNodes (d' ! q) =
           concat (map (\<lambda>c. if c \<in> T then block c else [c]) (childNodes (d ! q)))"
    unfolding processed_def by blast
  have 1: "processLineBreaks s element d = Some (Inr d')"
    using col run by (simp add: processLineBreaks_def)
  have 2: "processed s {t \<in> set (concat (map nodes_of ts)). is_replaced s d t} d d' block"
    using pr by (simp add: T forest_def)
  have 3: "\<forall>q. q = element \<or> q \<in> set (concat (map nodes_of ts)) \<longrightarrow>
        childNodes (d' ! q) =
          concat (map (\<lambda>c. if is_replaced s d c then block c else [c]) (childNodes (d ! q)))"
  proof (intro allI impI)
    fix q assume q: "q = element \<or> q \<in> set (concat (map nodes_of ts))"
    note sp = subtree_parent [OF st q]
    have "childNodes (d' ! q) =
           concat (map (\<lambda>c. if c \<in> T then block c else [c]) (childNodes (d ! q)))"
    proof (rule e [OF sp(1)], intro ballI impI)
      fix c assume "c \<in> T" "c \<in> set (childNodes (d ! q))"
      with sp(4) [of c] distinct_count_list [OF sp(3), of c]
      show "parentNode (d ! c) = Some q \<and> count_list (childNodes (d ! q)) c = 1" by simp
    qed
    also have "map (\<lambda>c. if c \<in> T then block c else [c]) (childNodes (d ! q)) =
          map (\<lambda>c. if is_replaced s d c then block c else [c]) (childNodes (d ! q))"
      using sp(2) by (intro map_cong refl) (auto simp: T forest_def)
    finally show "childNodes (d' ! q) =
          concat (map (\<lambda>c. if is_replaced s d c then block c else [c]) (childNodes (d ! q)))" .
  qed
  from 1 2 3 show ?thesis by (intro exI [of _ d'] exI [of _ block] conjI)
qed

section \<open>The parts of a payload and their items\<close>

lemma split_length: "tok \<noteq> [] \<Longrightarrow> length (split x tok) = Suc (occurrences tok x)"
proof (cases "x = []")
  case True
  assume "tok \<noteq> []"
  with True show ?thesis by (subst occurrences.simps) (simp add: split_def)
next
  case False
  assume "tok \<noteq> []"
  with False split_loop_length [of tok 0 x] show ?thesis by (simp add: split_def)
qed

lemma split_join: "tok \<noteq> [] \<Longrightarrow> join tok (split x tok) = x"
  using split_loop_join [of tok 0 x] by (simp add: split_def)

lemma occurrences_includes:
  assumes "1 \<le> occurrences tok x"
  shows "string_includes x tok"
proof (rule ccontr)
  assume "\<not> string_includes x tok"
  then have none: "stringIndexOf x tok 0 = None" by (simp add: string_includes_def)
  have "occurrences tok x = 0"
  proof (rule occurrences_none)
    fix k assume "k + length tok \<le> length x"
    from stringIndexOf_NoneD [OF none _ this] show "take (length tok) (drop k x) \<noteq> tok" by simp
  qed
  with assms show False by simp
qed

lemma split_token: "tok \<noteq> [] \<Longrightarrow> split tok tok = [[], []]"
proof -
  assume tok: "tok \<noteq> []"
  have 0: "stringIndexOf tok tok 0 = Some 0"
    by (rule stringIndexOf_SomeI) simp_all
  have 1: "stringIndexOf tok tok (length tok) = None"
    using tok by (simp add: stringIndexOf_def)
  have "split_loop tok tok (0 + length tok) = [[]]"
    using tok 1 by (subst split_loop.simps) simp
  then have "split_loop tok tok 0 = [[], []]"
    using tok 0 by (subst split_loop.simps) simp
  with tok show ?thesis by (simp add: split_def)
qed

lemma stringIndexOf_None_suffix:
  assumes "\<not> string_includes B tok" "tok \<noteq> []"
  shows "stringIndexOf (P @ B) tok (length P) = None"
proof (cases "stringIndexOf (P @ B) tok (length P)")
  case (Some j)
  note D = stringIndexOf_SomeD [OF Some]
  from D(1,3) have m: "take (length tok) (drop (j - length P) B) = tok" by simp
  from D(1,2) have l: "(j - length P) + length tok \<le> length B" by simp
  from assms(1) have "stringIndexOf B tok 0 = None" by (simp add: string_includes_def)
  from stringIndexOf_NoneD [OF this _ l] m show ?thesis by simp
qed simp

lemma split_once:
  assumes first: "stringIndexOf (A @ tok) tok 0 = Some (length A)"
    and B: "\<not> string_includes B tok" and tok: "tok \<noteq> []"
  shows "split (A @ tok @ B) tok = [A, B]"
proof -
  note D = stringIndexOf_SomeD [OF first]
  have 0: "stringIndexOf (A @ tok @ B) tok 0 = Some (length A)"
  proof (rule stringIndexOf_SomeI)
    show "take (length tok) (drop (length A) (A @ tok @ B)) = tok" by simp
    fix k assume k: "0 \<le> k" "k < length A"
    have eq: "take (length tok) (drop k (A @ tok @ B)) = take (length tok) (drop k (A @ tok))"
      using k by simp
    show "take (length tok) (drop k (A @ tok @ B)) \<noteq> tok"
      by (subst eq) (rule D(4) [OF k])
  qed simp_all
  have 1: "stringIndexOf (A @ tok @ B) tok (length A + length tok) = None"
    using stringIndexOf_None_suffix [OF B tok, of "A @ tok"] by simp
  have "split_loop (A @ tok @ B) tok (length A + length tok) = [B]"
    using tok 1 by (subst split_loop.simps) simp
  then have "split_loop (A @ tok @ B) tok 0 = [A, B]"
    using tok 0 by (subst split_loop.simps) simp
  with tok show ?thesis by (simp add: split_def)
qed

text \<open>The items of the parts.\<close>

lemma items_of_parts_breaks:
  "index + length parts = n \<Longrightarrow>
   length (filter (\<lambda>i. i = BreakMarker) (items_of_parts n parts index)) = length parts - 1"
proof (induction parts arbitrary: index)
  case Nil
  show ?case by simp
next
  case (Cons part rest)
  from Cons.prems have "Suc index + length rest = n" by simp
  from Cons.IH [OF this] Cons.prems show ?case by (cases rest) auto
qed

lemma items_of_parts_text:
  "index + length parts = n \<Longrightarrow>
   concat (map (item_text tok) (items_of_parts n parts index)) = join tok parts"
proof (induction parts arbitrary: index)
  case Nil
  show ?case by simp
next
  case (Cons part rest)
  from Cons.prems have "Suc index + length rest = n" by simp
  from Cons.IH [OF this] Cons.prems show ?case by (cases rest) auto
qed

lemma items_of_parts_no_other: "OtherNode \<notin> set (items_of_parts n parts index)"
  by (induction parts arbitrary: index) auto

lemma items_of_parts_no_empty: "TextFragment [] \<notin> set (items_of_parts n parts index)"
  by (induction parts arbitrary: index) auto

lemma items_of_parts_chars:
  "index + Suc (length cs) = n \<Longrightarrow>
   items_of_parts n (map (\<lambda>c. [c]) (c # cs)) index =
     TextFragment [c] # concat (map (\<lambda>c. [BreakMarker, TextFragment [c]]) cs)"
proof (induction cs arbitrary: c index)
  case Nil
  then show ?case by auto
next
  case (Cons a cs)
  from Cons.prems have "Suc index + Suc (length cs) = n" by simp
  from Cons.IH [OF this, of a] Cons.prems show ?case by auto
qed

lemma includes_once:
  assumes "stringIndexOf (A @ tok) tok 0 = Some (length A)"
  shows "string_includes (A @ tok @ B) tok"
proof -
  have "take (length tok) (drop (length A) (A @ tok @ B)) = tok" by simp
  moreover have "length A + length tok \<le> length (A @ tok @ B)" by simp
  ultimately have "stringIndexOf (A @ tok @ B) tok 0 \<noteq> None"
    using stringIndexOf_NoneD [of "A @ tok @ B" tok 0 "length A"] by blast
  then show ?thesis by (simp add: string_includes_def)
qed

lemma is_replaced_I:
  "kind (d ! t) = Text x \<Longrightarrow> string_includes x (triggerWord s) \<Longrightarrow>
   2 \<le> length (split x (triggerWord s)) \<Longrightarrow> parentNode (d ! t) = Some p \<Longrightarrow> is_replaced s d t"
  by (simp add: is_replaced_def)

section \<open>The example documents\<close>

lemma example_document_closed: "closed example_document"
  by code_simp

lemma example_document_subtree: "subtree example_document 0 [Node 1 [], Node 2 []]"
  by code_simp

lemma DEFAULT_SETTINGS_triggerWord: "triggerWord DEFAULT_SETTINGS \<noteq> []"
  by (simp add: DEFAULT_SETTINGS_def ascii_def)

section \<open>The settings\<close>

text \<open>
  C3. A stored trigger word that is the empty string is kept by \<open>loadSettings\<close>: the resolved
  trigger word is empty, not the default. (An absent trigger word resolves to the default, and
  the settings tab never stores an empty one.)
\<close>

theorem loadSettings_keeps_empty_triggerWord:
  "triggerWord (loadSettings (Some \<lparr>stored_triggerWord = Some [], stored_breakMethod = None,
                                    stored_enabled = None\<rparr>)) = []"
  by (simp add: loadSettings_def)

lemma loadSettings_absent_triggerWord:
  "triggerWord (loadSettings None) = ascii ''.break.''"
  "stored_triggerWord st = None \<Longrightarrow> triggerWord (loadSettings (Some st)) = ascii ''.break.''"
  by (simp_all add: loadSettings_def DEFAULT_SETTINGS_def)

lemma onChange_triggerWord_not_empty:
  "triggerWord (onChange_triggerWord v s) \<noteq> []"
  by (simp add: onChange_triggerWord_def ascii_def)

section \<open>The post-processors\<close>

text \<open>
  C2. With \<open>enabled = false\<close> each of the two registered post-processors returns without
  an exception and leaves the whole store as it was: no node is collected, created or changed.
\<close>

theorem disabled_is_noop:
  "\<not> enabled s \<Longrightarrow>
   postProcessor_first s element d = Some (Inr d) \<and> postProcessor_second s element d = Some (Inr d)"
  by (simp add: postProcessor_first_def postProcessor_second_def)

theorem disabled_is_noop_witness:
  "\<not> enabled (DEFAULT_SETTINGS\<lparr>enabled := False\<rparr>) \<and>
   postProcessor_first (DEFAULT_SETTINGS\<lparr>enabled := False\<rparr>) 0 example_document
     = Some (Inr example_document) \<and>
   postProcessor_second (DEFAULT_SETTINGS\<lparr>enabled := False\<rparr>) 0 example_document
     = Some (Inr example_document)"
  using disabled_is_noop [of "DEFAULT_SETTINGS\<lparr>enabled := False\<rparr>" 0 example_document]
  by simp

text \<open>
  C9. \<open>processLivePreview\<close> gives, for every settings, element and store, the result of
  \<open>processLineBreaks\<close>.
\<close>

theorem processLivePreview_is_processLineBreaks:
  "processLivePreview s element d = processLineBreaks s element d"
  by (simp add: processLivePreview_def)

section \<open>The replacement sequences\<close>

text \<open>
  C1. For a non-empty trigger word and every text node below the element whose payload has
  \<open>N \<ge> 1\<close> occurrences of it: the node is replaced, among the children of its parent, by a
  sequence of text fragments and break markers with exactly \<open>N\<close> break markers, and the
  payloads of the text fragments, with the trigger word for each break marker, concatenate to
  the payload of the node.
\<close>

theorem replacement_round_trip:
  assumes cl: "closed d" and st: "subtree d element ts" and tok: "triggerWord s \<noteq> []"
  shows "\<exists>d' block. processLineBreaks s element d = Some (Inr d') \<and>
     (\<forall>t\<in>set (concat (map nodes_of ts)). \<forall>x.
        kind (d ! t) = Text x \<and> 1 \<le> occurrences (triggerWord s) x \<longrightarrow>
        (\<exists>p. parentNode (d ! t) = Some p \<and> parentNode (d' ! t) = None \<and>
             childNodes (d' ! p) =
               concat (map (\<lambda>c. if is_replaced s d c then block c else [c]) (childNodes (d ! p)))) \<and>
        is_replaced s d t \<and>
        length (filter (\<lambda>i. i = BreakMarker) (map (item_of s d') (block t))) =
          occurrences (triggerWord s) x \<and>
        OtherNode \<notin> set (map (item_of s d') (block t)) \<and>
        concat (map (item_text (triggerWord s)) (map (item_of s d') (block t))) = x)"
proof -
  define T where "T = {t \<in> set (concat (map nodes_of ts)). is_replaced s d t}"
  from processLineBreaks_processed [OF cl st, of s] obtain d' block where
    run: "processLineBreaks s element d = Some (Inr d')"
    and pr: "processed s T d d' block"
    and ch: "\<forall>q. q = element \<or> q \<in> set (concat (map nodes_of ts)) \<longrightarrow>
        childNodes (d' ! q) =
          concat (map (\<lambda>c. if is_replaced s d c then block c else [c]) (childNodes (d ! q)))"
    unfolding T_def by blast
  have "(\<exists>p. parentNode (d ! t) = Some p \<and> parentNode (d' ! t) = None \<and>
             childNodes (d' ! p) =
               concat (map (\<lambda>c. if is_replaced s d c then block c else [c]) (childNodes (d ! p)))) \<and>
        is_replaced s d t \<and>
        length (filter (\<lambda>i. i = BreakMarker) (map (item_of s d') (block t))) =
          occurrences (triggerWord s) x \<and>
        OtherNode \<notin> set (map (item_of s d') (block t)) \<and>
        concat (map (item_text (triggerWord s)) (map (item_of s d') (block t))) = x"
    if t: "t \<in> set (concat (map nodes_of ts))" and k: "kind (d ! t) = Text x"
      and occ: "1 \<le> occurrences (triggerWord s) x" for t x
  proof -
    from subtree_node [OF st t] obtain p where tl: "t < length d"
      and p: "parentNode (d ! t) = Some p" "p = element \<or> p \<in> set (concat (map nodes_of ts))"
      by blast
    have len: "length (split x (triggerWord s)) = Suc (occurrences (triggerWord s) x)"
      by (rule split_length [OF tok])
    from len occ have len2: "2 \<le> length (split x (triggerWord s))" by arith
    have rep: "is_replaced s d t"
      by (rule is_replaced_I [OF k occurrences_includes [OF occ] len2 p(1)])
    from t rep have tT: "t \<in> T" by (simp add: T_def)
    note it = processed_items [OF pr tT k]
    have "parentNode (d' ! t) = None" using processed_parent [OF pr tl] tT by simp
    with p ch have 1: "\<exists>p. parentNode (d ! t) = Some p \<and> parentNode (d' ! t) = None \<and>
             childNodes (d' ! p) =
               concat (map (\<lambda>c. if is_replaced s d c then block c else [c]) (childNodes (d ! p)))"
      by blast
    have 2: "length (filter (\<lambda>i. i = BreakMarker) (map (item_of s d') (block t))) =
          occurrences (triggerWord s) x"
      unfolding it using items_of_parts_breaks [of 0 "split x (triggerWord s)"] len by simp
    have 3: "OtherNode \<notin> set (map (item_of s d') (block t))"
      unfolding it by (rule items_of_parts_no_other)
    have 4: "concat (map (item_text (triggerWord s)) (map (item_of s d') (block t))) = x"
      unfolding it using items_of_parts_text [of 0 "split x (triggerWord s)"] split_join [OF tok]
      by simp
    from 1 rep 2 3 4 show ?thesis by (intro conjI)
  qed
  then have "\<forall>t\<in>set (concat (map nodes_of ts)). \<forall>x.
        kind (d ! t) = Text x \<and> 1 \<le> occurrences (triggerWord s) x \<longrightarrow>
        (\<exists>p. parentNode (d ! t) = Some p \<and> parentNode (d' ! t) = None \<and>
             childNodes (d' ! p) =
               concat (map (\<lambda>c. if is_replaced s d c then block c else [c]) (childNodes (d ! p)))) \<and>
        is_replaced s d t \<and>
        length (filter (\<lambda>i. i = BreakMarker) (map (item_of s d') (block t))) =
          occurrences (triggerWord s) x \<and>
        OtherNode \<notin> set (map (item_of s d') (block t)) \<and>
        concat (map (item_text (triggerWord s)) (map (item_of s d') (block t))) = x"
    by (intro ballI allI impI) (erule conjE)
  with run show ?thesis by (intro exI [of _ d'] exI [of _ block] conjI)
qed

theorem replacement_round_trip_witness:
  "closed example_document \<and> subtree example_document 0 [Node 1 [], Node 2 []] \<and>
   triggerWord DEFAULT_SETTINGS \<noteq> [] \<and>
   (\<exists>d' (block :: ref \<Rightarrow> ref list). processLineBreaks DEFAULT_SETTINGS 0 example_document = Some (Inr d') \<and>
      is_replaced DEFAULT_SETTINGS example_document 2 \<and>
      length (filter (\<lambda>i. i = BreakMarker) (map (item_of DEFAULT_SETTINGS d') (block 2))) = 1 \<and>
      concat (map (item_text (triggerWord DEFAULT_SETTINGS)) (map (item_of DEFAULT_SETTINGS d') (block 2)))
        = ascii ''x.break.y'')"
proof -
  have k: "kind (example_document ! 2) = Text (ascii ''x.break.y'')"
    by (simp add: example_document_def)
  have occ: "occurrences (triggerWord DEFAULT_SETTINGS) (ascii ''x.break.y'') = 1"
    by code_simp
  from replacement_round_trip
    [OF example_document_closed example_document_subtree DEFAULT_SETTINGS_triggerWord]
  obtain d' block where
    run: "processLineBreaks DEFAULT_SETTINGS 0 example_document = Some (Inr d')"
    and leaf: "\<forall>t\<in>set (concat (map nodes_of [Node 1 [], Node 2 []])). \<forall>x.
        kind (example_document ! t) = Text x \<and> 1 \<le> occurrences (triggerWord DEFAULT_SETTINGS) x \<longrightarrow>
        (\<exists>p. parentNode (example_document ! t) = Some p \<and> parentNode (d' ! t) = None \<and>
             childNodes (d' ! p) =
               concat (map (\<lambda>c. if is_replaced DEFAULT_SETTINGS example_document c then block c else [c])
                 (childNodes (example_document ! p)))) \<and>
        is_replaced DEFAULT_SETTINGS example_document t \<and>
        length (filter (\<lambda>i. i = BreakMarker) (map (item_of DEFAULT_SETTINGS d') (block t))) =
          occurrences (triggerWord DEFAULT_SETTINGS) x \<and>
        OtherNode \<notin> set (map (item_of DEFAULT_SETTINGS d') (block t)) \<and>
        concat (map (item_text (triggerWord DEFAULT_SETTINGS)) (map (item_of DEFAULT_SETTINGS d') (block t))) = x"
    by (elim exE conjE)
  have mem: "2 \<in> set (concat (map nodes_of [Node 1 [], Node 2 []]))" by simp
  have pre: "kind (example_document ! 2) = Text (ascii ''x.break.y'') \<and>
      1 \<le> occurrences (triggerWord DEFAULT_SETTINGS) (ascii ''x.break.y'')"
    using k occ by simp
  note q = bspec [OF leaf mem, THEN spec, of "ascii ''x.break.y''", THEN mp, OF pre]
  from q have r1: "is_replaced DEFAULT_SETTINGS example_document 2"
    by (elim conjE)
  from q have r2': "length (filter (\<lambda>i. i = BreakMarker) (map (item_of DEFAULT_SETTINGS d') (block 2))) =
          occurrences (triggerWord DEFAULT_SETTINGS) (ascii ''x.break.y'')"
    by (elim conjE)
  from q have r3: "concat (map (item_text (triggerWord DEFAULT_SETTINGS)) (map (item_of DEFAULT_SETTINGS d') (block 2)))
        = ascii ''x.break.y''"
    by (elim conjE)
  from r2' occ have r2: "length (filter (\<lambda>i. i = BreakMarker) (map (item_of DEFAULT_SETTINGS d') (block 2))) = 1"
    by (rule trans)
  from run r1 r2 r3 have "\<exists>d' (block :: ref \<Rightarrow> ref list). processLineBreaks DEFAULT_SETTINGS 0 example_document = Some (Inr d') \<and>
      is_replaced DEFAULT_SETTINGS example_document 2 \<and>
      length (filter (\<lambda>i. i = BreakMarker) (map (item_of DEFAULT_SETTINGS d') (block 2))) = 1 \<and>
      concat (map (item_text (triggerWord DEFAULT_SETTINGS)) (map (item_of DEFAULT_SETTINGS d') (block 2)))
        = ascii ''x.break.y''"
    by (intro exI [of _ d'] exI [of _ block] conjI)
  with example_document_closed example_document_subtree DEFAULT_SETTINGS_triggerWord
  show ?thesis by (intro conjI)
qed

end
